theory Spec2Isabelle
  imports Complex_Main "HOL-Library.Product_Lexorder"
begin

section \<open>A call centre with limited agents: the simulation script\<close>

text \<open>
  The script \<^verbatim>\<open>121444498_CS.py\<close> drives the discrete-event library simpy: a generator
  \<^verbatim>\<open>setup\<close> creates a \<^verbatim>\<open>simpy.Resource\<close> and spawns one \<^verbatim>\<open>customer\<close> generator per call;
  \<^verbatim>\<open>env.run(until=SIM_TIME)\<close> dispatches the events. The generators and the scenario
  loop are embedded from the script. The library calls they make
  (\<^verbatim>\<open>Environment.schedule/step/run\<close>, \<^verbatim>\<open>Timeout\<close>, \<^verbatim>\<open>Process\<close>, \<^verbatim>\<open>Resource.request/release\<close>)
  are embedded from simpy's kernel, which the script imports; each such definition says so.

  Simulated time and the sampled durations are Python floats; they are modelled as
  \<open>real\<close>. The state of the module \<^verbatim>\<open>random\<close> is the position \<open>draws\<close> in a stream
  \<open>rng\<close> of variates.
\<close>

subsection \<open>Errors, configuration, random source\<close>

datatype error = ValueError | ZeroDivisionError | EmptySchedule | RuntimeError

text \<open>One entry of \<^verbatim>\<open>SCENARIOS\<close> together with the two module constants.\<close>

record config =
  num_agents :: int
  service_mean :: real
  inter_arrival_mean :: real
  sim_time :: real

text \<open>
  \<^verbatim>\<open>random.expovariate(lambd)\<close> returns \<^verbatim>\<open>-log(1.0 - random()) / lambd\<close>. The argument \<open>e\<close>
  stands for the variate \<^verbatim>\<open>-log(1.0 - random())\<close>, which is never negative since
  \<^verbatim>\<open>random()\<close> lies in [0, 1).
\<close>

definition expovariate :: "real \<Rightarrow> real \<Rightarrow> real" where
  "expovariate lambd e = e / lambd"

subsection \<open>The event queue of simpy's Environment\<close>

datatype pid = Setup | Customer nat

text \<open>
  The events this script creates: the start of a process, a timeout a process waits
  for, a resource request (granted), a resource release, the end of a process (with
  the exception that ended it, if any) and the stop event of \<^verbatim>\<open>run(until=...)\<close>.
\<close>

datatype event =
    Initialize pid
  | Timeout pid
  | Request nat
  | Release nat
  | Process pid "error option"
  | Until

type_synonym key = "real \<times> nat \<times> nat"
type_synonym entry = "key \<times> event"

definition URGENT :: nat where [simp]: "URGENT = 0"
definition NORMAL :: nat where [simp]: "NORMAL = 1"

text \<open>
  simpy keeps the tuples \<^verbatim>\<open>(time, priority, eid, event)\<close> in a binary heap
  (\<^verbatim>\<open>heappush\<close>, \<^verbatim>\<open>heappop\<close>). The heap is modelled by the list of its entries in
  ascending order of \<^verbatim>\<open>(time, priority, eid)\<close>; \<^verbatim>\<open>heappop\<close> takes the head.
\<close>

definition heappush :: "entry \<Rightarrow> entry list \<Rightarrow> entry list" where
  "heappush x q = insort_key fst x q"

subsection \<open>simpy.Resource\<close>

record resource =
  capacity :: int
  users :: "nat list"
  queue :: "nat list"

text \<open>\<^verbatim>\<open>Resource.__init__\<close>: a capacity that is not positive is refused.\<close>

definition Resource :: "int \<Rightarrow> error + resource" where
  "Resource cap =
     (if cap \<le> 0 then Inl ValueError
      else Inr \<lparr>capacity = cap, users = [], queue = []\<rparr>)"

text \<open>
  \<^verbatim>\<open>BaseResource._trigger_put\<close> with \<^verbatim>\<open>Resource._do_put\<close>: only the head of the queue is
  tried (\<^verbatim>\<open>_do_put\<close> returns \<^verbatim>\<open>None\<close>, so the loop stops after one round); when a unit is
  free the head joins \<^verbatim>\<open>users\<close>, its event is triggered and it leaves the queue. The
  second component is the request whose event was triggered.
\<close>

definition trigger_put :: "resource \<Rightarrow> resource \<times> nat option" where
  "trigger_put r =
     (case queue r of
        [] \<Rightarrow> (r, None)
      | k # rest \<Rightarrow>
          if int (length (users r)) < capacity r
          then (r\<lparr>users := users r @ [k], queue := rest\<rparr>, Some k)
          else (r, None))"

text \<open>\<^verbatim>\<open>Resource.request()\<close>: the new request joins the queue, then the queue is served.\<close>

definition request :: "nat \<Rightarrow> resource \<Rightarrow> resource \<times> nat option" where
  "request k r = trigger_put (r\<lparr>queue := queue r @ [k]\<rparr>)"

text \<open>
  \<^verbatim>\<open>Request.__exit__\<close>: a request not yet triggered is cancelled (removed from the
  queue); then \<^verbatim>\<open>release\<close> removes the request from \<^verbatim>\<open>users\<close> (\<^verbatim>\<open>_do_get\<close>).
\<close>

definition exit_request :: "nat \<Rightarrow> resource \<Rightarrow> resource" where
  "exit_request k r = r\<lparr>queue := remove1 k (queue r), users := remove1 k (users r)\<rparr>"

subsection \<open>The state of one scenario run\<close>

text \<open>The point at which a \<^verbatim>\<open>customer\<close> generator is suspended, with its live locals.\<close>

datatype cust = Created | AtRequest real | AtTimeout | Finished | Failed error

record env =
  now :: real
  env_queue :: "entry list"
  eid :: nat
  agents :: resource
  setup_i :: nat
  custs :: "cust list"
  wait_times :: "real list"
  queue_lengths :: "nat list"
  service_times :: "real list"
  draws :: nat

text \<open>\<^verbatim>\<open>Environment.schedule(event, priority, delay)\<close>.\<close>

definition schedule :: "event \<Rightarrow> nat \<Rightarrow> real \<Rightarrow> env \<Rightarrow> env" where
  "schedule ev prio delay s =
     s\<lparr>env_queue := heappush ((now s + delay, prio, eid s), ev) (env_queue s),
       eid := Suc (eid s)\<rparr>"

text \<open>\<^verbatim>\<open>env.timeout(delay)\<close> called by process \<open>p\<close>: a negative delay is refused.\<close>

definition timeout :: "pid \<Rightarrow> real \<Rightarrow> env \<Rightarrow> error + env" where
  "timeout p delay s =
     (if delay < 0 then Inl ValueError else Inr (schedule (Timeout p) NORMAL delay s))"

text \<open>\<^verbatim>\<open>event.succeed()\<close> on the request that \<^verbatim>\<open>_do_put\<close> admitted.\<close>

definition grant :: "nat option \<Rightarrow> env \<Rightarrow> env" where
  "grant g s = (case g of None \<Rightarrow> s | Some k \<Rightarrow> schedule (Request k) NORMAL 0 s)"

definition env_trigger_put :: "env \<Rightarrow> env" where
  "env_trigger_put s = (case trigger_put (agents s) of (r, g) \<Rightarrow> grant g (s\<lparr>agents := r\<rparr>))"

definition env_request :: "nat \<Rightarrow> env \<Rightarrow> env" where
  "env_request k s = (case request k (agents s) of (r, g) \<Rightarrow> grant g (s\<lparr>agents := r\<rparr>))"

text \<open>Leaving the \<^verbatim>\<open>with\<close> block: the release event is triggered at once.\<close>

definition env_exit_request :: "nat \<Rightarrow> env \<Rightarrow> env" where
  "env_exit_request k s =
     schedule (Release k) NORMAL 0 (s\<lparr>agents := exit_request k (agents s)\<rparr>)"

text \<open>
  \<^verbatim>\<open>Process._resume\<close> when the generator returns or raises: the process event is
  scheduled, carrying the exception if there is one.
\<close>

definition proc_end :: "pid \<Rightarrow> error option \<Rightarrow> env \<Rightarrow> env" where
  "proc_end p r s = schedule (Process p r) NORMAL 0 s"

subsection \<open>The generator \<^verbatim>\<open>setup\<close>\<close>

text \<open>Line 43: \<^verbatim>\<open>yield env.timeout(random.expovariate(1 / INTER_ARRIVAL_MEAN))\<close>.\<close>

definition setup_wait :: "config \<Rightarrow> (nat \<Rightarrow> real) \<Rightarrow> env \<Rightarrow> env" where
  "setup_wait c rng s =
     (if inter_arrival_mean c = 0 then proc_end Setup (Some ZeroDivisionError) s
      else
        let d = expovariate (1 / inter_arrival_mean c) (rng (draws s));
            s1 = s\<lparr>draws := Suc (draws s)\<rparr>
        in case timeout Setup d s1 of
             Inl e \<Rightarrow> proc_end Setup (Some e) s1
           | Inr s2 \<Rightarrow> s2)"

text \<open>Lines 40-43: the first resumption of \<^verbatim>\<open>setup\<close>.\<close>

definition setup_start :: "config \<Rightarrow> (nat \<Rightarrow> real) \<Rightarrow> env \<Rightarrow> env" where
  "setup_start c rng s =
     (case Resource (num_agents c) of
        Inl e \<Rightarrow> proc_end Setup (Some e) s
      | Inr r \<Rightarrow> setup_wait c rng (s\<lparr>agents := r, setup_i := 0\<rparr>))"

text \<open>\<^verbatim>\<open>env.process(customer(...))\<close>: a new process, started by an urgent event.\<close>

definition process_customer :: "env \<Rightarrow> env" where
  "process_customer s =
     schedule (Initialize (Customer (length (custs s)))) URGENT 0
       (s\<lparr>custs := custs s @ [Created]\<rparr>)"

text \<open>Lines 44, 45 and 43: \<^verbatim>\<open>setup\<close> resumed by its timeout.\<close>

definition setup_resume :: "config \<Rightarrow> (nat \<Rightarrow> real) \<Rightarrow> env \<Rightarrow> env" where
  "setup_resume c rng s =
     setup_wait c rng (process_customer (s\<lparr>setup_i := Suc (setup_i s)\<rparr>))"

subsection \<open>The generator \<^verbatim>\<open>customer\<close>\<close>

text \<open>Lines 23-29: from the start to \<^verbatim>\<open>yield request\<close>.\<close>

definition customer_start :: "nat \<Rightarrow> env \<Rightarrow> env" where
  "customer_start k s =
     env_request k
       (s\<lparr>custs := (custs s)[k := AtRequest (now s)],
          queue_lengths := queue_lengths s @ [length (queue (agents s))]\<rparr>)"

text \<open>An exception inside the \<^verbatim>\<open>with\<close> block: the request is released, the process fails.\<close>

definition customer_fail :: "nat \<Rightarrow> error \<Rightarrow> env \<Rightarrow> env" where
  "customer_fail k e s =
     proc_end (Customer k) (Some e)
       (env_exit_request k (s\<lparr>custs := (custs s)[k := Failed e]\<rparr>))"

text \<open>Lines 30-37: from the grant to \<^verbatim>\<open>yield env.timeout(service_time)\<close>.\<close>

definition customer_granted :: "config \<Rightarrow> (nat \<Rightarrow> real) \<Rightarrow> nat \<Rightarrow> real \<Rightarrow> env \<Rightarrow> env" where
  "customer_granted c rng k arrival_time s =
     (let s1 = s\<lparr>wait_times := wait_times s @ [now s - arrival_time]\<rparr>
      in if service_mean c = 0 then customer_fail k ZeroDivisionError s1
         else
           let service_time = expovariate (1 / service_mean c) (rng (draws s1));
               s2 = s1\<lparr>draws := Suc (draws s1),
                       service_times := service_times s1 @ [service_time]\<rparr>
           in case timeout (Customer k) service_time s2 of
                Inl e \<Rightarrow> customer_fail k e s2
              | Inr s3 \<Rightarrow> s3\<lparr>custs := (custs s3)[k := AtTimeout]\<rparr>)"

text \<open>After line 37: the service is over, the \<^verbatim>\<open>with\<close> block and the generator end.\<close>

definition customer_done :: "nat \<Rightarrow> env \<Rightarrow> env" where
  "customer_done k s =
     proc_end (Customer k) None
       (env_exit_request k (s\<lparr>custs := (custs s)[k := Finished]\<rparr>))"

subsection \<open>\<^verbatim>\<open>Environment.step\<close> and \<^verbatim>\<open>Environment.run\<close>\<close>

datatype outcome = Continue env | Stopped env | Raised error env

text \<open>
  The callbacks of each kind of event. A request event resumes the customer that
  yielded it; a release event serves the queue (\<^verbatim>\<open>_trigger_put\<close>); the event of a failed
  process re-raises its exception out of \<^verbatim>\<open>step\<close>; the stop event raises
  \<^verbatim>\<open>StopSimulation\<close>.
\<close>

fun dispatch :: "config \<Rightarrow> (nat \<Rightarrow> real) \<Rightarrow> event \<Rightarrow> env \<Rightarrow> outcome" where
  "dispatch c rng Until s = Stopped s"
| "dispatch c rng (Initialize Setup) s = Continue (setup_start c rng s)"
| "dispatch c rng (Initialize (Customer k)) s = Continue (customer_start k s)"
| "dispatch c rng (Timeout Setup) s = Continue (setup_resume c rng s)"
| "dispatch c rng (Timeout (Customer k)) s = Continue (customer_done k s)"
| "dispatch c rng (Request k) s =
     (if k < length (custs s)
      then (case custs s ! k of
              AtRequest a \<Rightarrow> Continue (customer_granted c rng k a s)
            | _ \<Rightarrow> Raised RuntimeError s)
      else Raised RuntimeError s)"
| "dispatch c rng (Release k) s = Continue (env_trigger_put s)"
| "dispatch c rng (Process p None) s = Continue s"
| "dispatch c rng (Process p (Some e)) s = Raised e s"

text \<open>\<^verbatim>\<open>Environment.step\<close>: pop the earliest entry, set \<^verbatim>\<open>now\<close> to its time, run its callbacks.\<close>

definition step :: "config \<Rightarrow> (nat \<Rightarrow> real) \<Rightarrow> env \<Rightarrow> outcome" where
  "step c rng s =
     (case env_queue s of
        [] \<Rightarrow> Raised EmptySchedule s
      | ((t, p, e), ev) # q \<Rightarrow> dispatch c rng ev (s\<lparr>now := t, env_queue := q\<rparr>))"

text \<open>
  The loop \<^verbatim>\<open>while True: self.step()\<close> of \<^verbatim>\<open>Environment.run\<close>, with fuel: \<open>Continue s\<close> is
  the state after \<open>n\<close> dispatches of a run that has not ended by then.
\<close>

fun run_loop :: "config \<Rightarrow> (nat \<Rightarrow> real) \<Rightarrow> nat \<Rightarrow> env \<Rightarrow> outcome" where
  "run_loop c rng 0 s = Continue s"
| "run_loop c rng (Suc n) s =
     (case step c rng s of
        Continue s' \<Rightarrow> run_loop c rng n s'
      | Stopped s' \<Rightarrow> Stopped s'
      | Raised e s' \<Rightarrow> Raised e s')"

subsection \<open>The scenario loop\<close>

text \<open>Lines 53-56: a fresh environment and empty lists; \<open>d\<close> is the position of the random stream.\<close>

definition Environment :: "nat \<Rightarrow> env" where
  "Environment d =
     \<lparr>now = 0, env_queue = [], eid = 0,
      agents = \<lparr>capacity = 0, users = [], queue = []\<rparr>,
      setup_i = 0, custs = [],
      wait_times = [], queue_lengths = [], service_times = [], draws = d\<rparr>"

text \<open>
  Line 58 and the head of \<^verbatim>\<open>env.run(until=SIM_TIME)\<close>: the stop event is scheduled as
  urgent at the horizon, which must lie after the current time.
\<close>

definition start :: "config \<Rightarrow> nat \<Rightarrow> error + env" where
  "start c d =
     (let s = schedule (Initialize Setup) URGENT 0 (Environment d)
      in if sim_time c \<le> now s then Inl ValueError
         else Inr (schedule Until URGENT (sim_time c - now s) s))"

definition run_scenario :: "config \<Rightarrow> (nat \<Rightarrow> real) \<Rightarrow> nat \<Rightarrow> nat \<Rightarrow> outcome" where
  "run_scenario c rng d n =
     (case start c d of
        Inl e \<Rightarrow> Raised e (schedule (Initialize Setup) URGENT 0 (Environment d))
      | Inr s \<Rightarrow> run_loop c rng n s)"

text \<open>Lines 9-17: the constants of the script and its three scenarios.\<close>

definition SIM_TIME :: real where
  "SIM_TIME = 480"

definition INTER_ARRIVAL_MEAN :: real where
  "INTER_ARRIVAL_MEAN = 5"

definition SCENARIOS :: "(string \<times> int \<times> real) list" where
  "SCENARIOS =
     [(''Scenario A (3 agents, 10 min avg service)'', 3, 10),
      (''Scenario B (5 agents, 10 min avg service)'', 5, 10),
      (''Scenario C (3 agents, 7 min avg service)'', 3, 7)]"

definition scenario_config :: "int \<times> real \<Rightarrow> config" where
  "scenario_config x =
     \<lparr>num_agents = fst x, service_mean = snd x,
      inter_arrival_mean = INTER_ARRIVAL_MEAN, sim_time = SIM_TIME\<rparr>"

text \<open>Lines 61-63: the metrics of one scenario.\<close>

record metrics =
  avg_wait :: real
  max_queue :: nat
  agent_utilization :: real

definition mean :: "real list \<Rightarrow> real" where
  "mean xs = sum_list xs / real (length xs)"

definition results :: "config \<Rightarrow> env \<Rightarrow> error + metrics" where
  "results c s =
     (let a = (if wait_times s \<noteq> [] then mean (wait_times s) else 0);
          m = (if queue_lengths s \<noteq> [] then fold max (tl (queue_lengths s)) (hd (queue_lengths s)) else 0)
      in if service_times s \<noteq> []
         then (if real_of_int (num_agents c) * sim_time c = 0 then Inl ZeroDivisionError
               else Inr \<lparr>avg_wait = a, max_queue = m,
                         agent_utilization =
                           sum_list (service_times s) / (real_of_int (num_agents c) * sim_time c) * 100\<rparr>)
         else Inr \<lparr>avg_wait = a, max_queue = m, agent_utilization = 0\<rparr>)"

text \<open>
  Lines 52-70: the scenarios run one after the other on the same random stream, each
  from the position where the one before stopped; an exception ends the script. Each
  entry of the result holds the metrics and \<^verbatim>\<open>wait_times\<close>. \<open>None\<close>: the fuel \<open>n\<close> did
  not suffice for some run.
\<close>

fun scenario_loop ::
  "(nat \<Rightarrow> real) \<Rightarrow> nat \<Rightarrow> (string \<times> int \<times> real) list \<Rightarrow> nat
     \<Rightarrow> (error + (string \<times> metrics \<times> real list) list) option" where
  "scenario_loop rng n [] d = Some (Inr [])"
| "scenario_loop rng n ((name, x) # rest) d =
     (case run_scenario (scenario_config x) rng d n of
        Continue s \<Rightarrow> None
      | Raised e s \<Rightarrow> Some (Inl e)
      | Stopped s \<Rightarrow>
          (case results (scenario_config x) s of
             Inl e \<Rightarrow> Some (Inl e)
           | Inr m \<Rightarrow>
               (case scenario_loop rng n rest (draws s) of
                  None \<Rightarrow> None
                | Some (Inl e) \<Rightarrow> Some (Inl e)
                | Some (Inr rs) \<Rightarrow> Some (Inr ((name, m, wait_times s) # rs)))))"

subsection \<open>Invariants of the run\<close>

text \<open>How often an event is pending in the heap.\<close>

definition pending :: "event \<Rightarrow> entry list \<Rightarrow> nat" where
  "pending ev q = length (filter (\<lambda>x. snd x = ev) q)"

text \<open>
  The pending events and the pool agree with the point where the generator of customer
  \<open>k\<close> is suspended: a created customer has its start pending; a customer at line 29
  is queued, or is a user with its request event pending; a customer at line 37 is a
  user with its timeout pending; a customer that has ended is nowhere.
\<close>

definition cust_ok :: "env \<Rightarrow> nat \<Rightarrow> bool" where
  "cust_ok s k =
     (let i = pending (Initialize (Customer k)) (env_queue s);
          r = pending (Request k) (env_queue s);
          t = pending (Timeout (Customer k)) (env_queue s);
          u = (k \<in> set (users (agents s)));
          w = (k \<in> set (queue (agents s)))
      in if k < length (custs s)
         then (case custs s ! k of
                 Created \<Rightarrow> i = Suc 0 \<and> r = 0 \<and> t = 0 \<and> \<not> u \<and> \<not> w
               | AtRequest a \<Rightarrow> i = 0 \<and> t = 0 \<and> (if w then \<not> u \<and> r = 0 else u \<and> r = Suc 0)
               | AtTimeout \<Rightarrow> i = 0 \<and> r = 0 \<and> t = Suc 0 \<and> u \<and> \<not> w
               | Finished \<Rightarrow> i = 0 \<and> r = 0 \<and> t = 0 \<and> \<not> u \<and> \<not> w
               | Failed e \<Rightarrow> i = 0 \<and> r = 0 \<and> t = 0 \<and> \<not> u \<and> \<not> w)
         else i = 0 \<and> r = 0 \<and> t = 0 \<and> \<not> u \<and> \<not> w)"

text \<open>The start of \<^verbatim>\<open>setup\<close> is pending at most once, and then no customer exists yet.\<close>

definition setup_ok :: "env \<Rightarrow> bool" where
  "setup_ok s \<longleftrightarrow>
     pending (Initialize Setup) (env_queue s) = 0
     \<or> (pending (Initialize Setup) (env_queue s) = Suc 0 \<and> custs s = []
        \<and> pending (Timeout Setup) (env_queue s) = 0)"

definition wf :: "env \<Rightarrow> bool" where
  "wf s \<longleftrightarrow> distinct (users (agents s)) \<and> distinct (queue (agents s))
            \<and> (\<forall>k. cust_ok s k) \<and> setup_ok s"

text \<open>The state an outcome carries.\<close>

fun env_of :: "outcome \<Rightarrow> env" where
  "env_of (Continue s) = s"
| "env_of (Stopped s) = s"
| "env_of (Raised e s) = s"

text \<open>A request is in the system from its arrival (line 23) until it leaves the \<^verbatim>\<open>with\<close> block.\<close>

fun in_system :: "cust \<Rightarrow> bool" where
  "in_system (AtRequest a) = True"
| "in_system AtTimeout = True"
| "in_system c = False"

definition conserved :: "env \<Rightarrow> bool" where
  "conserved s \<longleftrightarrow>
     length (users (agents s)) + length (queue (agents s)) = length (filter in_system (custs s))"

text \<open>
  The clock never runs backwards: the heap is ordered, no pending event lies in the
  past, and no customer arrived in the future.
\<close>

definition time_ok :: "env \<Rightarrow> bool" where
  "time_ok s \<longleftrightarrow>
     sorted (map fst (env_queue s))
     \<and> (\<forall>x \<in> set (env_queue s). now s \<le> fst (fst x))
     \<and> (\<forall>j < length (custs s). \<forall>a. custs s ! j = AtRequest a \<longrightarrow> a \<le> now s)"

text \<open>
  The stop event of \<^verbatim>\<open>run(until=h)\<close> is pending with the key \<open>(h, URGENT, 1)\<close>; every
  other pending event lies before the horizon or behind the stop event.
\<close>

definition until_ok :: "real \<Rightarrow> env \<Rightarrow> bool" where
  "until_ok h s \<longleftrightarrow>
     ((h, URGENT, 1), Until) \<in> set (env_queue s)
     \<and> 2 \<le> eid s
     \<and> (\<forall>x \<in> set (env_queue s).
           x = ((h, URGENT, 1), Until) \<or> (snd x \<noteq> Until \<and> (fst (fst x) < h \<or> (h, URGENT, 1) < fst x)))"

text \<open>A customer has arrived once its generator has run line 23.\<close>

fun arrived :: "cust \<Rightarrow> bool" where
  "arrived Created = False"
| "arrived c = True"

text \<open>A customer has been granted once its generator has been resumed at line 30.\<close>

fun granted :: "cust \<Rightarrow> bool" where
  "granted Created = False"
| "granted (AtRequest a) = False"
| "granted c = True"

definition counted :: "env \<Rightarrow> bool" where
  "counted s \<longleftrightarrow>
     length (queue_lengths s) = length (filter arrived (custs s))
     \<and> length (wait_times s) = length (filter granted (custs s))"

text \<open>The event that the next call of \<^verbatim>\<open>step\<close> dispatches.\<close>

definition next_event :: "env \<Rightarrow> event option" where
  "next_event s = (case env_queue s of [] \<Rightarrow> None | x # q \<Rightarrow> Some (snd x))"

text \<open>
  The calls the generators make on the pool: \<^verbatim>\<open>request()\<close> on entering the \<^verbatim>\<open>with\<close>
  block, \<^verbatim>\<open>Request.__exit__\<close> on leaving it, and \<^verbatim>\<open>_trigger_put\<close> when the release
  event is dispatched. \<open>pool_calls\<close> runs a sequence of calls and collects, in order,
  the requests whose events are triggered (the grants).
\<close>

datatype pool_call = Acquire nat | Exit nat | Serve

definition grants_of :: "nat option \<Rightarrow> nat list" where
  "grants_of g = (case g of None \<Rightarrow> [] | Some k \<Rightarrow> [k])"

fun pool_calls :: "pool_call list \<Rightarrow> resource \<Rightarrow> nat list \<Rightarrow> resource \<times> nat list" where
  "pool_calls [] r g = (r, g)"
| "pool_calls (Acquire k # cs) r g =
     (case request k r of (r', x) \<Rightarrow> pool_calls cs r' (g @ grants_of x))"
| "pool_calls (Exit k # cs) r g = pool_calls cs (exit_request k r) g"
| "pool_calls (Serve # cs) r g =
     (case trigger_put r of (r', x) \<Rightarrow> pool_calls cs r' (g @ grants_of x))"


text \<open>
  A customer leaves the \<^verbatim>\<open>with\<close> block only after line 29 has resumed it, that is with
  a request that is no longer queued.
\<close>

fun calls_ok :: "pool_call list \<Rightarrow> resource \<Rightarrow> bool" where
  "calls_ok [] r = True"
| "calls_ok (Acquire k # cs) r = calls_ok cs (fst (request k r))"
| "calls_ok (Exit k # cs) r = (k \<notin> set (queue r) \<and> calls_ok cs (exit_request k r))"
| "calls_ok (Serve # cs) r = calls_ok cs (fst (trigger_put r))"

text \<open>
  A state is doomed when the event of a failed process is pending at the current
  time: \<^verbatim>\<open>step\<close> will re-raise the exception when it pops that event.
\<close>

definition doomed :: "key \<Rightarrow> event \<Rightarrow> env \<Rightarrow> bool" where
  "doomed f ev s \<longleftrightarrow>
     (f, ev) \<in> set (env_queue s) \<and> time_ok s \<and> now s = fst f
     \<and> fst (snd f) = NORMAL \<and> snd (snd f) < eid s"

text \<open>
  The events that are dispatched before the entry with key \<open>f\<close>, counted twice when
  they resume \<^verbatim>\<open>setup\<close> (which then schedules the urgent start of a customer).
\<close>

definition ahead :: "key \<Rightarrow> entry \<Rightarrow> nat" where
  "ahead f x = (if fst x \<le> f then (if snd x = Timeout Setup then 2 else 1) else 0)"

definition backlog :: "key \<Rightarrow> env \<Rightarrow> nat" where
  "backlog f s = sum_list (map (ahead f) (env_queue s))"

subsection \<open>Example inputs\<close>

definition cfg1 :: config where
  "cfg1 = \<lparr>num_agents = 1, service_mean = 10, inter_arrival_mean = 5, sim_time = 30\<rparr>"

definition obs3 :: env where
  "obs3 = (Environment 0)\<lparr>wait_times := [0, 5, 10], queue_lengths := [0, 0, 1, 1, 2],
                            service_times := [10, 10, 10]\<rparr>"

definition cfg5 :: config where
  "cfg5 = \<lparr>num_agents = 1, service_mean = 10, inter_arrival_mean = 5, sim_time = 5\<rparr>"

text \<open>The stream in which every variate is 1: every sampled duration equals its mean.\<close>

definition unit_draws :: "nat \<Rightarrow> real" where
  "unit_draws n = 1"


definition late_draws :: "nat \<Rightarrow> real" where
  "late_draws n = (if n < 9 then 1 else 7)"

definition cfg_zero :: config where
  "cfg_zero = \<lparr>num_agents = 1, service_mean = 0, inter_arrival_mean = 5, sim_time = 5\<rparr>"

definition cfg_none :: config where
  "cfg_none = \<lparr>num_agents = 0, service_mean = 10, inter_arrival_mean = 5, sim_time = 30\<rparr>"

definition cfg_neg :: config where
  "cfg_neg = \<lparr>num_agents = 1, service_mean = - 10, inter_arrival_mean = 5, sim_time = 30\<rparr>"

section \<open>Proofs\<close>

subsection \<open>The pending events agree with the states of the generators\<close>

lemma pending_Nil [simp]: "pending ev [] = 0"
  by (simp add: pending_def)

lemma pending_Cons [simp]:
  "pending ev (x # q) = (if snd x = ev then Suc (pending ev q) else pending ev q)"
  by (simp add: pending_def)

lemma pending_heappush [simp]:
  "pending ev (heappush x q) = (if snd x = ev then Suc (pending ev q) else pending ev q)"
  unfolding heappush_def by (induction q) auto

lemma schedule_fields [simp]:
  "now (schedule ev p d s) = now s"
  "agents (schedule ev p d s) = agents s"
  "custs (schedule ev p d s) = custs s"
  "setup_i (schedule ev p d s) = setup_i s"
  "wait_times (schedule ev p d s) = wait_times s"
  "queue_lengths (schedule ev p d s) = queue_lengths s"
  "service_times (schedule ev p d s) = service_times s"
  "draws (schedule ev p d s) = draws s"
  "eid (schedule ev p d s) = Suc (eid s)"
  "env_queue (schedule ev p d s) = heappush ((now s + d, p, eid s), ev) (env_queue s)"
  by (simp_all add: schedule_def)

lemma cust_ok_cong:
  assumes "length (custs s') = length (custs s)" "custs s' ! k = custs s ! k"
    and "pending (Initialize (Customer k)) (env_queue s') = pending (Initialize (Customer k)) (env_queue s)"
    and "pending (Request k) (env_queue s') = pending (Request k) (env_queue s)"
    and "pending (Timeout (Customer k)) (env_queue s') = pending (Timeout (Customer k)) (env_queue s)"
    and "k \<in> set (users (agents s')) \<longleftrightarrow> k \<in> set (users (agents s))"
    and "k \<in> set (queue (agents s')) \<longleftrightarrow> k \<in> set (queue (agents s))"
  shows "cust_ok s' k = cust_ok s k"
  by (simp add: cust_ok_def assms)

lemma cust_ok_queued:
  assumes "cust_ok s k" "k \<in> set (queue (agents s))"
  shows "k < length (custs s) \<and> (\<exists>a. custs s ! k = AtRequest a) \<and> k \<notin> set (users (agents s))
         \<and> pending (Request k) (env_queue s) = 0
         \<and> pending (Initialize (Customer k)) (env_queue s) = 0
         \<and> pending (Timeout (Customer k)) (env_queue s) = 0"
  using assms by (auto simp: cust_ok_def Let_def split: if_splits cust.splits)

lemma wf_trigger_put:
  assumes "wf s"
  shows "wf (env_trigger_put s)"
proof (cases "queue (agents s)")
  case Nil
  then show ?thesis using assms
    by (simp add: env_trigger_put_def trigger_put_def grant_def)
next
  case (Cons h rest)
  show ?thesis
  proof (cases "int (length (users (agents s))) < capacity (agents s)")
    case False
    then show ?thesis using assms Cons
      by (simp add: env_trigger_put_def trigger_put_def grant_def)
  next
    case True
    define s' where "s' = schedule (Request h) NORMAL 0
       (s\<lparr>agents := (agents s)\<lparr>users := users (agents s) @ [h], queue := rest\<rparr>\<rparr>)"
    have eq: "env_trigger_put s = s'"
      using True Cons by (simp add: env_trigger_put_def trigger_put_def grant_def s'_def)
    from assms have d: "distinct (users (agents s))" "distinct (queue (agents s))"
      and ok: "\<And>k. cust_ok s k" and so: "setup_ok s"
      by (auto simp: wf_def)
    have hq: "h \<in> set (queue (agents s))" using Cons by simp
    note hfacts = cust_ok_queued [OF ok hq]
    have hr: "h \<notin> set rest" using d Cons by simp
    have "cust_ok s' k" for k
    proof (cases "k = h")
      case True
      then show ?thesis using hfacts hr
        by (auto simp: cust_ok_def s'_def)
    next
      case False
      have "cust_ok s' k = cust_ok s k"
        by (rule cust_ok_cong) (use False Cons in \<open>auto simp: s'_def\<close>)
      then show ?thesis using ok by simp
    qed
    moreover have "distinct (users (agents s'))" using d hfacts by (simp add: s'_def)
    moreover have "distinct (queue (agents s'))" using d Cons by (simp add: s'_def)
    moreover have "setup_ok s'" using so by (simp add: setup_ok_def s'_def)
    ultimately show ?thesis unfolding eq wf_def by blast
  qed
qed


lemma wf_D:
  assumes "wf s"
  shows "distinct (users (agents s))" "distinct (queue (agents s))" "cust_ok s k" "setup_ok s"
  using assms by (auto simp: wf_def)

lemma cust_ok_timeout:
  assumes "cust_ok s k" "pending (Timeout (Customer k)) (env_queue s) \<noteq> 0"
  shows "k < length (custs s) \<and> custs s ! k = AtTimeout \<and> k \<in> set (users (agents s))
         \<and> k \<notin> set (queue (agents s))
         \<and> pending (Request k) (env_queue s) = 0
         \<and> pending (Initialize (Customer k)) (env_queue s) = 0
         \<and> pending (Timeout (Customer k)) (env_queue s) = Suc 0"
  using assms by (auto simp: cust_ok_def Let_def split: if_splits cust.splits)

lemma wf_customer_done:
  assumes "wf s" "env_queue s = (key, Timeout (Customer j)) # q"
  shows "wf (customer_done j (s\<lparr>now := t, env_queue := q\<rparr>))"
proof -
  define s' where "s' = customer_done j (s\<lparr>now := t, env_queue := q\<rparr>)"
  have j: "j < length (custs s)" "custs s ! j = AtTimeout" "j \<in> set (users (agents s))"
     "j \<notin> set (queue (agents s))" "pending (Request j) q = 0"
     "pending (Initialize (Customer j)) q = 0" "pending (Timeout (Customer j)) q = 0"
    using cust_ok_timeout [OF wf_D(3) [OF assms(1), of j]] assms(2) by simp_all
  have "cust_ok s' k" for k
  proof (cases "k = j")
    case True
    then show ?thesis using j wf_D(1) [OF assms(1)]
      by (simp add: cust_ok_def Let_def s'_def customer_done_def proc_end_def
            env_exit_request_def exit_request_def)
  next
    case False
    have "cust_ok s' k = cust_ok s k"
      by (rule cust_ok_cong)
        (use False j assms(2) in \<open>simp_all add: s'_def customer_done_def proc_end_def
           env_exit_request_def exit_request_def\<close>)
    then show ?thesis using wf_D(3) [OF assms(1), of k] by simp
  qed
  moreover have "distinct (users (agents s'))" "distinct (queue (agents s'))"
    using wf_D(1,2) [OF assms(1)]
    by (simp_all add: s'_def customer_done_def proc_end_def env_exit_request_def exit_request_def)
  moreover have "setup_ok s'" using wf_D(4) [OF assms(1)] assms(2)
    by (auto simp add: setup_ok_def s'_def customer_done_def proc_end_def env_exit_request_def)
  ultimately show ?thesis unfolding wf_def s'_def by blast
qed


lemma cust_ok_request:
  assumes "cust_ok s k" "pending (Request k) (env_queue s) \<noteq> 0"
  shows "k < length (custs s) \<and> (\<exists>a. custs s ! k = AtRequest a) \<and> k \<in> set (users (agents s))
         \<and> k \<notin> set (queue (agents s))
         \<and> pending (Request k) (env_queue s) = Suc 0
         \<and> pending (Initialize (Customer k)) (env_queue s) = 0
         \<and> pending (Timeout (Customer k)) (env_queue s) = 0"
  using assms by (auto simp: cust_ok_def Let_def split: if_splits cust.splits)

lemma cust_ok_initialize:
  assumes "cust_ok s k" "pending (Initialize (Customer k)) (env_queue s) \<noteq> 0"
  shows "k < length (custs s) \<and> custs s ! k = Created \<and> k \<notin> set (users (agents s))
         \<and> k \<notin> set (queue (agents s))
         \<and> pending (Request k) (env_queue s) = 0
         \<and> pending (Initialize (Customer k)) (env_queue s) = Suc 0
         \<and> pending (Timeout (Customer k)) (env_queue s) = 0"
  using assms by (auto simp: cust_ok_def Let_def split: if_splits cust.splits)

lemma wf_fail_after_pop:
  assumes "wf s" "env_queue s = (key, Request j) # q"
    and s1: "env_queue s1 = q" "agents s1 = agents s" "custs s1 = custs s"
  shows "wf (customer_fail j e s1)"
proof -
  define s' where "s' = customer_fail j e s1"
  have j: "j < length (custs s)" "j \<in> set (users (agents s))"
     "j \<notin> set (queue (agents s))" "pending (Request j) q = 0"
     "pending (Initialize (Customer j)) q = 0" "pending (Timeout (Customer j)) q = 0"
    using cust_ok_request [OF wf_D(3) [OF assms(1), of j]] assms(2) by simp_all
  have "cust_ok s' k" for k
  proof (cases "k = j")
    case True
    then show ?thesis using j s1 wf_D(1) [OF assms(1)]
      by (simp add: cust_ok_def Let_def s'_def customer_fail_def proc_end_def
            env_exit_request_def exit_request_def)
  next
    case False
    have "cust_ok s' k = cust_ok s k"
      by (rule cust_ok_cong)
        (use False j s1 assms(2) in \<open>simp_all add: s'_def customer_fail_def proc_end_def
           env_exit_request_def exit_request_def\<close>)
    then show ?thesis using wf_D(3) [OF assms(1), of k] by simp
  qed
  moreover have "distinct (users (agents s'))" "distinct (queue (agents s'))"
    using wf_D(1,2) [OF assms(1)] s1
    by (simp_all add: s'_def customer_fail_def proc_end_def env_exit_request_def exit_request_def)
  moreover have "setup_ok s'" using wf_D(4) [OF assms(1)] assms(2) s1
    by (auto simp add: setup_ok_def s'_def customer_fail_def proc_end_def env_exit_request_def)
  ultimately show ?thesis unfolding wf_def s'_def by blast
qed

lemma wf_service_after_pop:
  assumes "wf s" "env_queue s = (key, Request j) # q"
    and s1: "env_queue s1 = q" "agents s1 = agents s" "custs s1 = custs s"
  shows "wf ((schedule (Timeout (Customer j)) pr d s1)\<lparr>custs := (custs s)[j := AtTimeout]\<rparr>)"
    (is "wf ?s'")
proof -
  have j: "j < length (custs s)" "j \<in> set (users (agents s))"
     "j \<notin> set (queue (agents s))" "pending (Request j) q = 0"
     "pending (Initialize (Customer j)) q = 0" "pending (Timeout (Customer j)) q = 0"
    using cust_ok_request [OF wf_D(3) [OF assms(1), of j]] assms(2) by simp_all
  have "cust_ok ?s' k" for k
  proof (cases "k = j")
    case True
    then show ?thesis using j s1
      by (simp add: cust_ok_def Let_def)
  next
    case False
    have "cust_ok ?s' k = cust_ok s k"
      by (rule cust_ok_cong) (use False j s1 assms(2) in simp_all)
    then show ?thesis using wf_D(3) [OF assms(1), of k] by simp
  qed
  moreover have "distinct (users (agents ?s'))" "distinct (queue (agents ?s'))"
    using wf_D(1,2) [OF assms(1)] s1 by simp_all
  moreover have "setup_ok ?s'" using wf_D(4) [OF assms(1)] assms(2) s1
    by (auto simp add: setup_ok_def)
  ultimately show ?thesis unfolding wf_def by blast
qed

lemma wf_customer_granted:
  assumes "wf s" "env_queue s = (key, Request j) # q"
  shows "wf (customer_granted c rng j a (s\<lparr>now := t, env_queue := q\<rparr>))"
  unfolding customer_granted_def Let_def timeout_def
  by (auto intro!: wf_fail_after_pop [OF assms] wf_service_after_pop [OF assms])

lemma wf_customer_start:
  assumes "wf s" "env_queue s = (key, Initialize (Customer j)) # q"
  shows "wf (customer_start j (s\<lparr>now := t, env_queue := q\<rparr>))"
proof -
  define s1 where "s1 = s\<lparr>now := t, env_queue := q, custs := (custs s)[j := AtRequest t],
      queue_lengths := queue_lengths s @ [length (queue (agents s))],
      agents := (agents s)\<lparr>queue := queue (agents s) @ [j]\<rparr>\<rparr>"
  have eq: "customer_start j (s\<lparr>now := t, env_queue := q\<rparr>) = env_trigger_put s1"
    by (simp add: customer_start_def env_request_def env_trigger_put_def request_def s1_def)
  have j: "j < length (custs s)" "j \<notin> set (users (agents s))"
     "j \<notin> set (queue (agents s))" "pending (Request j) q = 0"
     "pending (Initialize (Customer j)) q = 0" "pending (Timeout (Customer j)) q = 0"
    using cust_ok_initialize [OF wf_D(3) [OF assms(1), of j]] assms(2) by simp_all
  have "cust_ok s1 k" for k
  proof (cases "k = j")
    case True
    then show ?thesis using j
      by (simp add: cust_ok_def Let_def s1_def)
  next
    case False
    have "cust_ok s1 k = cust_ok s k"
      by (rule cust_ok_cong) (use False j assms(2) in \<open>simp_all add: s1_def\<close>)
    then show ?thesis using wf_D(3) [OF assms(1), of k] by simp
  qed
  moreover have "distinct (users (agents s1))" "distinct (queue (agents s1))"
    using wf_D(1,2) [OF assms(1)] j by (simp_all add: s1_def)
  moreover have "setup_ok s1" using wf_D(4) [OF assms(1)] assms(2) j
    by (auto simp add: setup_ok_def s1_def)
  ultimately have "wf s1" unfolding wf_def by blast
  then show ?thesis unfolding eq by (rule wf_trigger_put)
qed

lemma wf_cong:
  assumes "env_queue s' = env_queue s" "agents s' = agents s" "custs s' = custs s"
  shows "wf s' = wf s"
  by (simp add: wf_def cust_ok_def setup_ok_def assms)

lemma wf_schedule_other:
  assumes "wf s" "ev = Release k \<or> ev = Process p x \<or> ev = Until
           \<or> (ev = Timeout Setup \<and> pending (Initialize Setup) (env_queue s) = 0)"
  shows "wf (schedule ev pr d s)"
proof -
  have "cust_ok (schedule ev pr d s) k = cust_ok s k" for k
    by (rule cust_ok_cong) (use assms(2) in auto)
  moreover have "setup_ok (schedule ev pr d s)"
    using wf_D(4) [OF assms(1)] assms(2) by (auto simp: setup_ok_def)
  ultimately show ?thesis using assms(1) by (simp add: wf_def)
qed

lemma wf_pop_other:
  assumes "wf s" "env_queue s = (key, ev) # q"
    "ev = Release k \<or> ev = Process p x \<or> ev = Until \<or> ev = Timeout Setup"
  shows "wf (s\<lparr>now := t, env_queue := q\<rparr>)"
proof -
  have "cust_ok (s\<lparr>now := t, env_queue := q\<rparr>) k = cust_ok s k" for k
    by (rule cust_ok_cong) (use assms(2,3) in auto)
  moreover have "setup_ok (s\<lparr>now := t, env_queue := q\<rparr>)"
    using wf_D(4) [OF assms(1)] assms(2,3) by (auto simp: setup_ok_def)
  ultimately show ?thesis using assms(1) by (simp add: wf_def)
qed

lemma wf_setup_wait:
  assumes "wf s" "pending (Initialize Setup) (env_queue s) = 0"
  shows "wf (setup_wait c rng s)"
proof -
  have a: "wf (s\<lparr>draws := d\<rparr>)" for d
    using assms(1) wf_cong [of "s\<lparr>draws := d\<rparr>" s] by simp
  show ?thesis
    unfolding setup_wait_def Let_def timeout_def proc_end_def
    by (auto intro!: wf_schedule_other a assms)
qed

lemma wf_setup_resume:
  assumes "wf s" "env_queue s = (key, Timeout Setup) # q"
  shows "wf (setup_resume c rng (s\<lparr>now := t, env_queue := q\<rparr>))"
proof -
  have p0: "pending (Initialize Setup) q = 0"
    using wf_D(4) [OF assms(1)] assms(2) by (auto simp: setup_ok_def)
  define s1 where "s1 = process_customer (s\<lparr>now := t, env_queue := q, setup_i := Suc (setup_i s)\<rparr>)"
  have "cust_ok s1 k" for k
    using wf_D(3) [OF assms(1), of k] wf_D(3) [OF assms(1), of "length (custs s)"] assms(2)
    by (auto simp: cust_ok_def Let_def s1_def process_customer_def nth_append)
  moreover have "distinct (users (agents s1))" "distinct (queue (agents s1))"
    using wf_D(1,2) [OF assms(1)] by (simp_all add: s1_def process_customer_def)
  moreover have "setup_ok s1" using p0
    by (auto simp add: setup_ok_def s1_def process_customer_def)
  ultimately have "wf s1" unfolding wf_def by blast
  moreover have "pending (Initialize Setup) (env_queue s1) = 0"
    using p0 by (simp add: s1_def process_customer_def)
  ultimately have "wf (setup_wait c rng s1)" by (rule wf_setup_wait)
  then show ?thesis by (simp add: setup_resume_def s1_def)
qed

lemma no_member_Nil: "(\<And>k. k \<notin> set xs) \<Longrightarrow> xs = []"
  by (cases xs) auto

lemma wf_setup_start:
  assumes "wf s" "env_queue s = (key, Initialize Setup) # q"
  shows "wf (setup_start c rng (s\<lparr>now := t, env_queue := q\<rparr>))"
proof -
  have p0: "pending (Initialize Setup) q = 0" "custs s = []"
    using wf_D(4) [OF assms(1)] assms(2) by (auto simp: setup_ok_def)
  have ok: "cust_ok s k" for k by (rule wf_D(3) [OF assms(1)])
  have pk: "pending (Initialize (Customer k)) q = 0" "pending (Request k) q = 0"
    "pending (Timeout (Customer k)) q = 0" for k
    using ok [of k] p0(2) assms(2) by (simp_all add: cust_ok_def Let_def)
  have nm: "k \<notin> set (users (agents s))" "k \<notin> set (queue (agents s))" for k
    using ok [of k] p0(2) by (simp_all add: cust_ok_def Let_def)
  have e: "users (agents s) = []" "queue (agents s) = []"
    by (rule no_member_Nil, rule nm)+
  have 1: "wf (s\<lparr>now := t, env_queue := q\<rparr>)"
    using pk p0 e by (simp add: wf_def cust_ok_def Let_def setup_ok_def)
  show ?thesis
  proof (cases "Resource (num_agents c)")
    case (Inl err)
    then show ?thesis
      using wf_schedule_other [OF 1, of "Process Setup (Some err)" _ Setup "Some err"]
      by (simp add: setup_start_def proc_end_def)
  next
    case (Inr r)
    then have r: "users r = []" "queue r = []"
      by (auto simp: Resource_def split: if_splits)
    have 2: "wf (s\<lparr>now := t, env_queue := q, agents := r, setup_i := 0\<rparr>)"
      using pk p0 r by (simp add: wf_def cust_ok_def Let_def setup_ok_def)
    have "wf (setup_wait c rng (s\<lparr>now := t, env_queue := q, agents := r, setup_i := 0\<rparr>))"
      by (rule wf_setup_wait [OF 2]) (simp add: p0)
    then show ?thesis using Inr by (simp add: setup_start_def)
  qed
qed

lemma step_wf:
  assumes "wf s" "step c rng s = Continue s'"
  shows "wf s'"
proof (cases "env_queue s")
  case Nil
  then show ?thesis using assms(2) by (simp add: step_def)
next
  case (Cons x q)
  obtain t p e ev where x: "x = ((t, p, e), ev)" by (metis prod.exhaust)
  have d: "dispatch c rng ev (s\<lparr>now := t, env_queue := q\<rparr>) = Continue s'"
    using assms(2) Cons x by (simp add: step_def)
  have q: "env_queue s = ((t, p, e), ev) # q" using Cons x by simp
  show ?thesis
  proof (cases ev)
    case (Initialize pd)
    then show ?thesis using d q assms(1)
      by (cases pd) (auto intro: wf_setup_start wf_customer_start)
  next
    case (Timeout pd)
    then show ?thesis using d q assms(1)
      by (cases pd) (auto intro: wf_setup_resume wf_customer_done)
  next
    case (Request k)
    then show ?thesis using d q assms(1)
      by (auto split: if_splits cust.splits intro: wf_customer_granted)
  next
    case (Release k)
    then show ?thesis using d wf_pop_other [OF assms(1) q, of k] 
      by (auto intro: wf_trigger_put)
  next
    case (Process pd r)
    then show ?thesis using d wf_pop_other [OF assms(1) q, of _ pd r]
      by (cases r) auto
  next
    case Until
    then show ?thesis using d by simp
  qed
qed

subsection \<open>States reached by the run\<close>

lemma run_loop_invariant:
  assumes "P s0"
    and "\<And>s s'. P s \<Longrightarrow> step c rng s = Continue s' \<Longrightarrow> P s'"
    and "run_loop c rng n s0 = Continue s"
  shows "P s"
  using assms(1,3)
proof (induction n arbitrary: s0)
  case 0
  then show ?case by simp
next
  case (Suc n)
  then show ?case
    by (cases "step c rng s0") (auto intro: assms(2))
qed

lemma run_loop_ended:
  assumes "run_loop c rng n s0 = out" "out = Stopped s \<or> out = Raised e s"
  shows "\<exists>m s1. m < n \<and> run_loop c rng m s0 = Continue s1 \<and> step c rng s1 = out"
  using assms
proof (induction n arbitrary: s0)
  case 0
  then show ?case by auto
next
  case (Suc n)
  show ?case
  proof (cases "step c rng s0")
    case (Continue s')
    with Suc.prems have "run_loop c rng n s' = out" by simp
    from Suc.IH [OF this Suc.prems(2)] obtain m s1
      where "m < n" "run_loop c rng m s' = Continue s1" "step c rng s1 = out" by blast
    then have "Suc m < Suc n \<and> run_loop c rng (Suc m) s0 = Continue s1 \<and> step c rng s1 = out"
      using Continue by simp
    then show ?thesis by blast
  next
    case (Stopped s')
    with Suc.prems have "0 < Suc n \<and> run_loop c rng 0 s0 = Continue s0 \<and> step c rng s0 = out"
      by simp
    then show ?thesis by blast
  next
    case (Raised e' s')
    with Suc.prems have "0 < Suc n \<and> run_loop c rng 0 s0 = Continue s0 \<and> step c rng s0 = out"
      by simp
    then show ?thesis by blast
  qed
qed

text \<open>What a dispatch that ends the run leaves behind: the state with the head popped.\<close>

lemma step_ended:
  assumes "step c rng s = out" "out = Stopped s' \<or> out = Raised e s'"
  shows "s' = s \<or> (\<exists>key ev q. env_queue s = (key, ev) # q \<and> s' = s\<lparr>now := fst key, env_queue := q\<rparr>)"
proof (cases "env_queue s")
  case Nil
  then show ?thesis using assms by (auto simp: step_def)
next
  case (Cons x q)
  obtain t p i ev where x: "x = ((t, p, i), ev)" by (metis prod.exhaust)
  have d: "dispatch c rng ev (s\<lparr>now := t, env_queue := q\<rparr>) = out"
    using assms(1) Cons x by (simp add: step_def)
  have "s' = s\<lparr>now := t, env_queue := q\<rparr>"
    using d assms(2)
    by (cases "(c, rng, ev, s\<lparr>now := t, env_queue := q\<rparr>)" rule: dispatch.cases)
       (auto split: if_splits cust.splits)
  then show ?thesis using Cons x by auto
qed

lemma start_fields:
  assumes "start c d = Inr s0"
  shows "env_queue s0 = [((0, URGENT, 0), Initialize Setup), ((sim_time c, URGENT, 1), Until)]"
    "now s0 = 0" "custs s0 = []" "users (agents s0) = []" "queue (agents s0) = []"
    "wait_times s0 = []" "queue_lengths s0 = []" "service_times s0 = []" "draws s0 = d"
    "0 < sim_time c"
  using assms
  by (auto simp: start_def Let_def schedule_def heappush_def Environment_def split: if_splits)

lemma wf_start:
  assumes "start c d = Inr s0"
  shows "wf s0"
  using start_fields [OF assms]
  by (simp add: wf_def cust_ok_def setup_ok_def)

lemma wf_reached:
  assumes "start c d = Inr s0" "run_loop c rng n s0 = Continue s"
  shows "wf s"
  by (rule run_loop_invariant [where P = wf, OF wf_start [OF assms(1)] _ assms(2)])
     (rule step_wf)

subsection \<open>Conservation\<close>

lemma length_filter_update:
  assumes "j < length xs"
  shows "length (filter P (xs[j := v])) + (if P (xs ! j) then 1 else 0)
         = length (filter P xs) + (if P v then 1 else 0)"
  using assms
proof (induction xs arbitrary: j)
  case Nil
  then show ?case by simp
next
  case (Cons x xs)
  then show ?case by (cases j) auto
qed

lemma conserved_cong:
  assumes "agents s' = agents s" "custs s' = custs s"
  shows "conserved s' = conserved s"
  by (simp add: conserved_def assms)

lemma conserved_trigger_put:
  assumes "conserved s"
  shows "conserved (env_trigger_put s)"
  using assms
  by (cases "queue (agents s)")
     (auto simp: conserved_def env_trigger_put_def trigger_put_def grant_def)

lemma length_remove1_in: "x \<in> set xs \<Longrightarrow> Suc (length (remove1 x xs)) = length xs"
  by (induction xs) auto

lemma conserved_leave:
  assumes "conserved s" "j < length (custs s)" "in_system (custs s ! j)" "\<not> in_system v"
    "j \<in> set (users (agents s))" "j \<notin> set (queue (agents s))"
  shows "conserved (env_exit_request j (s\<lparr>custs := (custs s)[j := v]\<rparr>))"
proof -
  have "length (filter in_system ((custs s)[j := v])) + 1 = length (filter in_system (custs s))"
    using length_filter_update [OF assms(2), of in_system v] assms(3,4) by simp
  moreover have "Suc (length (remove1 j (users (agents s)))) = length (users (agents s))"
    using assms(5) by (rule length_remove1_in)
  moreover have "remove1 j (queue (agents s)) = queue (agents s)"
    using assms(6) by (simp add: remove1_idem)
  ultimately show ?thesis using assms(1)
    by (simp add: conserved_def env_exit_request_def exit_request_def)
qed

lemma setup_wait_fields [simp]:
  "agents (setup_wait c rng s) = agents s"
  "custs (setup_wait c rng s) = custs s"
  "now (setup_wait c rng s) = now s"
  "wait_times (setup_wait c rng s) = wait_times s"
  "queue_lengths (setup_wait c rng s) = queue_lengths s"
  "service_times (setup_wait c rng s) = service_times s"
  by (simp_all add: setup_wait_def Let_def timeout_def proc_end_def)

lemma step_conserved:
  assumes "wf s" "conserved s" "step c rng s = Continue s'"
  shows "conserved s'"
proof (cases "env_queue s")
  case Nil
  then show ?thesis using assms(3) by (simp add: step_def)
next
  case (Cons x q)
  obtain t p i ev where x: "x = ((t, p, i), ev)" by (metis prod.exhaust)
  have d: "dispatch c rng ev (s\<lparr>now := t, env_queue := q\<rparr>) = Continue s'"
    using assms(3) Cons x by (simp add: step_def)
  have q: "env_queue s = ((t, p, i), ev) # q" using Cons x by simp
  let ?s1 = "s\<lparr>now := t, env_queue := q\<rparr>"
  have c1: "conserved ?s1" using assms(2) by (simp add: conserved_def)
  show ?thesis
  proof (cases ev)
    case (Initialize pd)
    show ?thesis
    proof (cases pd)
      case Setup
      have e: "custs s = []"
        using wf_D(4) [OF assms(1)] q Initialize Setup by (auto simp: setup_ok_def)
      have "s' = setup_start c rng ?s1" using d Initialize Setup by simp
      then show ?thesis using c1 e
        by (auto simp: setup_start_def proc_end_def conserved_def Resource_def split: if_splits)
    next
      case (Customer j)
      have j: "j < length (custs s)" "custs s ! j = Created"
        using cust_ok_initialize [OF wf_D(3) [OF assms(1), of j]] q Initialize Customer by simp_all
      define s2 where "s2 = s\<lparr>now := t, env_queue := q, custs := (custs s)[j := AtRequest t],
        queue_lengths := queue_lengths s @ [length (queue (agents s))],
        agents := (agents s)\<lparr>queue := queue (agents s) @ [j]\<rparr>\<rparr>"
      have "s' = env_trigger_put s2"
        using d Initialize Customer
        by (simp add: customer_start_def env_request_def env_trigger_put_def request_def s2_def)
      moreover have "conserved s2"
        using length_filter_update [OF j(1), of in_system "AtRequest t"] j(2) assms(2)
        by (simp add: conserved_def s2_def)
      ultimately show ?thesis by (simp add: conserved_trigger_put)
    qed
  next
    case (Timeout pd)
    show ?thesis
    proof (cases pd)
      case Setup
      then have "s' = setup_resume c rng ?s1" using d Timeout by simp
      then show ?thesis using c1
        by (simp add: setup_resume_def process_customer_def conserved_def)
    next
      case (Customer j)
      have j: "j < length (custs s)" "custs s ! j = AtTimeout" "j \<in> set (users (agents s))"
        "j \<notin> set (queue (agents s))"
        using cust_ok_timeout [OF wf_D(3) [OF assms(1), of j]] q Timeout Customer by simp_all
      have "conserved (env_exit_request j (?s1\<lparr>custs := (custs ?s1)[j := Finished]\<rparr>))"
        by (rule conserved_leave) (use c1 j in simp_all)
      moreover have "s' = proc_end (Customer j) None
            (env_exit_request j (?s1\<lparr>custs := (custs ?s1)[j := Finished]\<rparr>))"
        using d Timeout Customer by (simp add: customer_done_def)
      ultimately show ?thesis by (simp add: conserved_def proc_end_def)
    qed
  next
    case (Request j)
    have j: "j < length (custs s)" "j \<in> set (users (agents s))" "j \<notin> set (queue (agents s))"
      using cust_ok_request [OF wf_D(3) [OF assms(1), of j]] q Request by simp_all
    from d Request obtain a where a: "custs s ! j = AtRequest a"
      and s': "s' = customer_granted c rng j a ?s1"
      by (auto split: if_splits cust.splits)
    have fail: "conserved (customer_fail j e' s2)"
      if "agents s2 = agents s" "custs s2 = custs s" for e' s2
    proof -
      have "conserved (env_exit_request j (s2\<lparr>custs := (custs s2)[j := Failed e']\<rparr>))"
        by (rule conserved_leave) (use assms(2) j a that in \<open>simp_all add: conserved_def\<close>)
      then show ?thesis by (simp add: customer_fail_def conserved_def proc_end_def)
    qed
    have ok: "conserved ((schedule (Timeout (Customer j)) pr dl s2)\<lparr>custs := (custs s)[j := AtTimeout]\<rparr>)"
      if "agents s2 = agents s" for pr dl s2
      using length_filter_update [OF j(1), of in_system AtTimeout] a assms(2) that
      by (simp add: conserved_def)
    show ?thesis unfolding s' customer_granted_def Let_def timeout_def
      by (auto intro!: fail ok)
  next
    case (Release k)
    then show ?thesis using d c1 by (auto intro: conserved_trigger_put)
  next
    case (Process pd r)
    then show ?thesis using d c1 by (cases r) auto
  next
    case Until
    then show ?thesis using d by simp
  qed
qed

lemma conserved_reached:
  assumes "start c d = Inr s0" "run_loop c rng n s0 = Continue s"
  shows "conserved s"
proof -
  have "wf s \<and> conserved s"
  proof (rule run_loop_invariant [where P = "\<lambda>s. wf s \<and> conserved s", OF _ _ assms(2)])
    show "wf s0 \<and> conserved s0"
      using wf_start [OF assms(1)] start_fields [OF assms(1)] by (simp add: conserved_def)
  next
    fix s s' assume "wf s \<and> conserved s" "step c rng s = Continue s'"
    then show "wf s' \<and> conserved s'" using step_wf step_conserved by blast
  qed
  then show ?thesis by simp
qed

text \<open>
  Claim C7. After every dispatch of a run, and in the state the run ends with, the
  number of users of the resource plus the length of its queue is the number of
  customers that have arrived and not yet left.
\<close>

theorem conservation:
  "conserved (env_of (run_scenario c rng d n))"
proof (cases "start c d")
  case (Inl e)
  then show ?thesis
    by (simp add: run_scenario_def conserved_def schedule_def Environment_def)
next
  case (Inr s0)
  show ?thesis
  proof (cases "run_loop c rng n s0")
    case (Continue s)
    then show ?thesis using conserved_reached [OF Inr Continue] Inr
      by (simp add: run_scenario_def)
  next
    case (Stopped s)
    from run_loop_ended [OF Stopped] obtain m s1
      where m: "run_loop c rng m s0 = Continue s1" "step c rng s1 = Stopped s" by blast
    have "conserved s1" by (rule conserved_reached [OF Inr m(1)])
    moreover have "agents s = agents s1" "custs s = custs s1"
      using step_ended [OF m(2)] by auto
    ultimately show ?thesis using Stopped Inr
      by (simp add: run_scenario_def conserved_def)
  next
    case (Raised e s)
    from run_loop_ended [OF Raised] obtain m s1
      where m: "run_loop c rng m s0 = Continue s1" "step c rng s1 = Raised e s" by blast
    have "conserved s1" by (rule conserved_reached [OF Inr m(1)])
    moreover have "agents s = agents s1" "custs s = custs s1"
      using step_ended [OF m(2)] by auto
    ultimately show ?thesis using Raised Inr
      by (simp add: run_scenario_def conserved_def)
  qed
qed

subsection \<open>The metrics of a scenario\<close>

lemma fold_max_Max:
  assumes "xs \<noteq> []"
  shows "fold max (tl xs) (hd xs) = Max (set xs)"
proof (cases xs)
  case Nil
  with assms show ?thesis by simp
next
  case (Cons a list)
  then show ?thesis using Max.set_eq_fold [of a list] by simp
qed

text \<open>
  Claim C3. Whenever lines 61-63 produce the metrics of a run, the average wait is the
  mean of \<^verbatim>\<open>wait_times\<close> (0 when the list is empty), the maximal queue length is the
  maximum of \<^verbatim>\<open>queue_lengths\<close> (0 when empty), and the utilisation is
  \<open>100 * sum(service_times) / (num_agents * SIM_TIME)\<close> (0 when no service was recorded).
\<close>

theorem results_metrics:
  "results c s = Inr m \<Longrightarrow>
     avg_wait m = (if wait_times s = [] then 0
                   else sum_list (wait_times s) / real (length (wait_times s)))
   \<and> max_queue m = (if queue_lengths s = [] then 0 else Max (set (queue_lengths s)))
   \<and> agent_utilization m =
       (if service_times s = [] then 0
        else 100 * sum_list (service_times s) / (real_of_int (num_agents c) * sim_time c))"
  by (auto simp: results_def mean_def Let_def fold_max_Max split: if_splits)

theorem results_metrics_witness:
  "results cfg1 obs3 = Inr \<lparr>avg_wait = 5, max_queue = 2, agent_utilization = 100\<rparr>
   \<and> max_queue \<lparr>avg_wait = 5, max_queue = 2, agent_utilization = 100\<rparr>
       = Max (set (queue_lengths obs3))"
  using results_metrics [of cfg1 obs3 "\<lparr>avg_wait = 5, max_queue = 2, agent_utilization = 100\<rparr>"]
  by (simp add: results_def mean_def cfg1_def obs3_def Environment_def)

subsection \<open>Time\<close>

lemma sorted_heappush [simp]:
  "sorted (map fst (heappush x q)) = sorted (map fst q)"
  by (simp add: heappush_def sorted_insort_key)

lemma set_heappush [simp]: "set (heappush x q) = insert x (set q)"
  by (simp add: heappush_def set_insort_key)

lemma time_ok_schedule:
  assumes "time_ok s" "0 \<le> dl"
  shows "time_ok (schedule ev pr dl s)"
  using assms by (auto simp: time_ok_def)

lemma time_ok_cong:
  assumes "env_queue s' = env_queue s" "now s' = now s" "custs s' = custs s"
  shows "time_ok s' = time_ok s"
  by (simp add: time_ok_def assms)

lemma time_ok_custs:
  assumes "time_ok s" "\<And>a. v = AtRequest a \<Longrightarrow> a \<le> now s"
  shows "time_ok (s\<lparr>custs := (custs s)[j := v]\<rparr>)"
  using assms by (cases "j < length (custs s)") (auto simp: time_ok_def nth_list_update)

lemma time_ok_pop:
  assumes "time_ok s" "env_queue s = ((t, p, i), ev) # q"
  shows "time_ok (s\<lparr>now := t, env_queue := q\<rparr>)" "now s \<le> t"
proof -
  have le: "\<forall>x \<in> set q. (t, p, i) \<le> fst x" and so: "sorted (map fst q)" and nt: "now s \<le> t"
    using assms by (auto simp: time_ok_def)
  have "t \<le> fst (fst x)" if "x \<in> set q" for x
  proof -
    obtain t' p' i' ev' where x: "x = ((t', p', i'), ev')" by (metis prod.exhaust)
    with le that have "(t, p, i) \<le> (t', p', i')" by fastforce
    then show ?thesis using x by (auto split: if_splits)
  qed
  then show "time_ok (s\<lparr>now := t, env_queue := q\<rparr>)"
    using assms(1) so nt by (fastforce simp: time_ok_def)
  show "now s \<le> t" by (rule nt)
qed

lemma env_trigger_put_fields [simp]:
  "now (env_trigger_put s) = now s"
  "custs (env_trigger_put s) = custs s"
  "wait_times (env_trigger_put s) = wait_times s"
  "queue_lengths (env_trigger_put s) = queue_lengths s"
  "service_times (env_trigger_put s) = service_times s"
  "draws (env_trigger_put s) = draws s"
  by (simp_all add: env_trigger_put_def grant_def split: prod.splits option.splits)

lemma time_ok_trigger_put:
  assumes "time_ok s"
  shows "time_ok (env_trigger_put s)"
proof -
  have a: "time_ok (s\<lparr>agents := r\<rparr>)" for r
    using assms time_ok_cong [of "s\<lparr>agents := r\<rparr>" s] by simp
  show ?thesis
    by (auto simp: env_trigger_put_def grant_def split: prod.splits option.splits
          intro!: time_ok_schedule a)
qed

lemma time_ok_exit:
  assumes "time_ok s"
  shows "time_ok (env_exit_request k s)"
proof -
  have a: "time_ok (s\<lparr>agents := r\<rparr>)" for r
    using assms time_ok_cong [of "s\<lparr>agents := r\<rparr>" s] by simp
  show ?thesis by (auto simp: env_exit_request_def intro!: time_ok_schedule a)
qed

lemma time_ok_setup_wait:
  assumes "time_ok s"
  shows "time_ok (setup_wait c rng s)"
proof -
  have a: "time_ok (s\<lparr>draws := r\<rparr>)" for r
    using assms time_ok_cong [of "s\<lparr>draws := r\<rparr>" s] by simp
  show ?thesis
    by (auto simp: setup_wait_def Let_def timeout_def proc_end_def intro!: time_ok_schedule a assms)
qed

lemma time_ok_customer_fail:
  assumes "time_ok s"
  shows "time_ok (customer_fail j e s)"
  unfolding customer_fail_def proc_end_def
  by (intro time_ok_schedule time_ok_exit time_ok_custs assms) simp_all

lemma step_time_ok:
  assumes "time_ok s" "step c rng s = Continue s'"
  shows "time_ok s'"
proof (cases "env_queue s")
  case Nil
  then show ?thesis using assms(2) by (simp add: step_def)
next
  case (Cons x q)
  obtain t p i ev where x: "x = ((t, p, i), ev)" by (metis prod.exhaust)
  have d: "dispatch c rng ev (s\<lparr>now := t, env_queue := q\<rparr>) = Continue s'"
    using assms(2) Cons x by (simp add: step_def)
  have q: "env_queue s = ((t, p, i), ev) # q" using Cons x by simp
  let ?s1 = "s\<lparr>now := t, env_queue := q\<rparr>"
  note t1 = time_ok_pop(1) [OF assms(1) q]
  have obs: "time_ok s2" if "env_queue s2 = q" "now s2 = t" "custs s2 = custs s" for s2
    using t1 time_ok_cong [of s2 ?s1] that by simp
  show ?thesis
  proof (cases ev)
    case (Initialize pd)
    show ?thesis
    proof (cases pd)
      case Setup
      then have "s' = setup_start c rng ?s1" using d Initialize by simp
      then show ?thesis
        by (auto simp: setup_start_def proc_end_def split: sum.splits
              intro!: time_ok_schedule time_ok_setup_wait t1 obs)
    next
      case (Customer j)
      define s2 where "s2 = s\<lparr>now := t, env_queue := q, custs := (custs s)[j := AtRequest t],
        queue_lengths := queue_lengths s @ [length (queue (agents s))],
        agents := (agents s)\<lparr>queue := queue (agents s) @ [j]\<rparr>\<rparr>"
      have "s' = env_trigger_put s2"
        using d Initialize Customer
        by (simp add: customer_start_def env_request_def env_trigger_put_def request_def s2_def)
      moreover have "time_ok (?s1\<lparr>custs := (custs ?s1)[j := AtRequest t]\<rparr>)"
        by (rule time_ok_custs [OF t1]) simp
      then have "time_ok s2"
        using time_ok_cong [of s2 "?s1\<lparr>custs := (custs ?s1)[j := AtRequest t]\<rparr>"]
        by (simp add: s2_def)
      ultimately show ?thesis by (simp add: time_ok_trigger_put)
    qed
  next
    case (Timeout pd)
    show ?thesis
    proof (cases pd)
      case Setup
      then have "s' = setup_resume c rng ?s1" using d Timeout by simp
      moreover have "time_ok (?s1\<lparr>setup_i := Suc (setup_i s), custs := custs s @ [Created]\<rparr>)"
        using t1 by (auto simp: time_ok_def nth_append)
      ultimately show ?thesis
        by (auto simp: setup_resume_def process_customer_def
              intro!: time_ok_setup_wait time_ok_schedule)
    next
      case (Customer j)
      then have "s' = customer_done j ?s1" using d Timeout by simp
      moreover have "time_ok (?s1\<lparr>custs := (custs ?s1)[j := Finished]\<rparr>)"
        by (rule time_ok_custs [OF t1]) simp
      ultimately show ?thesis
        unfolding customer_done_def proc_end_def
        by (auto intro!: time_ok_schedule time_ok_exit)
    qed
  next
    case (Request j)
    from d Request obtain a where a: "custs s ! j = AtRequest a"
      and s': "s' = customer_granted c rng j a ?s1"
      by (auto split: if_splits cust.splits)
    have ok: "time_ok ((schedule (Timeout (Customer j)) pr dl s2)\<lparr>custs := (custs s)[j := AtTimeout]\<rparr>)"
      if "env_queue s2 = q" "now s2 = t" "custs s2 = custs s" "0 \<le> dl" for pr dl s2
    proof -
      have "time_ok (schedule (Timeout (Customer j)) pr dl s2)"
        by (rule time_ok_schedule [OF obs [OF that(1-3)] that(4)])
      from time_ok_custs [OF this, of AtTimeout j] show ?thesis using that(3) by simp
    qed
    show ?thesis unfolding s' customer_granted_def Let_def timeout_def
      by (auto intro!: time_ok_customer_fail ok intro: obs)
  next
    case (Release k)
    then show ?thesis using d t1 by (auto intro: time_ok_trigger_put)
  next
    case (Process pd r)
    then show ?thesis using d t1 by (cases r) auto
  next
    case Until
    then show ?thesis using d by simp
  qed
qed

lemma time_ok_start:
  assumes "start c d = Inr s0"
  shows "time_ok s0"
  using start_fields [OF assms] by (simp add: time_ok_def)

lemma time_ok_reached:
  assumes "start c d = Inr s0" "run_loop c rng n s0 = Continue s"
  shows "time_ok s"
  by (rule run_loop_invariant [where P = time_ok, OF time_ok_start [OF assms(1)] _ assms(2)])
     (rule step_time_ok)

subsection \<open>The horizon\<close>

lemma until_ok_schedule:
  assumes "until_ok h s" "ev \<noteq> Until"
  shows "until_ok h (schedule ev pr dl s)"
  using assms by (auto simp: until_ok_def)

lemma until_ok_cong:
  assumes "env_queue s' = env_queue s" "eid s' = eid s"
  shows "until_ok h s' = until_ok h s"
  by (simp add: until_ok_def assms)

lemma until_ok_pop:
  assumes "until_ok h s" "env_queue s = (key, ev) # q" "ev \<noteq> Until"
  shows "until_ok h (s\<lparr>now := t, env_queue := q\<rparr>)"
  using assms by (auto simp: until_ok_def)


lemma until_ok_trigger_put:
  assumes "until_ok h s"
  shows "until_ok h (env_trigger_put s)"
proof -
  have a: "until_ok h (s\<lparr>agents := r\<rparr>)" for r
    using assms until_ok_cong [of "s\<lparr>agents := r\<rparr>" s] by simp
  show ?thesis
    by (auto simp: env_trigger_put_def grant_def split: prod.splits option.splits
          intro!: until_ok_schedule a)
qed

lemma until_ok_exit:
  assumes "until_ok h s"
  shows "until_ok h (env_exit_request k s)"
proof -
  have a: "until_ok h (s\<lparr>agents := r\<rparr>)" for r
    using assms until_ok_cong [of "s\<lparr>agents := r\<rparr>" s] by simp
  show ?thesis by (auto simp: env_exit_request_def intro!: until_ok_schedule a)
qed

lemma until_ok_setup_wait:
  assumes "until_ok h s"
  shows "until_ok h (setup_wait c rng s)"
proof -
  have a: "until_ok h (s\<lparr>draws := r\<rparr>)" for r
    using assms until_ok_cong [of "s\<lparr>draws := r\<rparr>" s] by simp
  show ?thesis
    by (auto simp: setup_wait_def Let_def timeout_def proc_end_def intro!: until_ok_schedule a assms)
qed

lemma until_ok_customer_fail:
  assumes "until_ok h s"
  shows "until_ok h (customer_fail j e s)"
proof -
  have "until_ok h (s\<lparr>custs := (custs s)[j := Failed e]\<rparr>)"
    using assms until_ok_cong [of "s\<lparr>custs := (custs s)[j := Failed e]\<rparr>" s] by simp
  then show ?thesis
    unfolding customer_fail_def proc_end_def
    by (intro until_ok_schedule until_ok_exit) simp_all
qed

lemma step_until_ok:
  assumes "until_ok h s" "step c rng s = Continue s'"
  shows "until_ok h s'"
proof (cases "env_queue s")
  case Nil
  then show ?thesis using assms(2) by (simp add: step_def)
next
  case (Cons x q)
  obtain t p i ev where x: "x = ((t, p, i), ev)" by (metis prod.exhaust)
  have d: "dispatch c rng ev (s\<lparr>now := t, env_queue := q\<rparr>) = Continue s'"
    using assms(2) Cons x by (simp add: step_def)
  have q: "env_queue s = ((t, p, i), ev) # q" using Cons x by simp
  have nu: "ev \<noteq> Until" using d by auto
  let ?s1 = "s\<lparr>now := t, env_queue := q\<rparr>"
  note t1 = until_ok_pop [OF assms(1) q nu, of t]
  have obs: "until_ok h s2" if "env_queue s2 = q" "eid s2 = eid s" for s2
    using t1 until_ok_cong [of s2 ?s1] that by simp
  show ?thesis
  proof (cases ev)
    case (Initialize pd)
    show ?thesis
    proof (cases pd)
      case Setup
      then have "s' = setup_start c rng ?s1" using d Initialize by simp
      then show ?thesis
        by (auto simp: setup_start_def proc_end_def split: sum.splits
              intro!: until_ok_schedule until_ok_setup_wait intro: obs)
    next
      case (Customer j)
      define s2 where "s2 = s\<lparr>now := t, env_queue := q, custs := (custs s)[j := AtRequest t],
        queue_lengths := queue_lengths s @ [length (queue (agents s))],
        agents := (agents s)\<lparr>queue := queue (agents s) @ [j]\<rparr>\<rparr>"
      have "s' = env_trigger_put s2"
        using d Initialize Customer
        by (simp add: customer_start_def env_request_def env_trigger_put_def request_def s2_def)
      moreover have "until_ok h s2" by (rule obs) (simp_all add: s2_def)
      ultimately show ?thesis by (simp add: until_ok_trigger_put)
    qed
  next
    case (Timeout pd)
    show ?thesis
    proof (cases pd)
      case Setup
      then have "s' = setup_resume c rng ?s1" using d Timeout by simp
      moreover have "until_ok h (?s1\<lparr>setup_i := Suc (setup_i s), custs := custs s @ [Created]\<rparr>)"
        by (rule obs) simp_all
      ultimately show ?thesis
        by (auto simp: setup_resume_def process_customer_def
              intro!: until_ok_setup_wait until_ok_schedule)
    next
      case (Customer j)
      then have "s' = customer_done j ?s1" using d Timeout by simp
      moreover have "until_ok h (?s1\<lparr>custs := (custs ?s1)[j := Finished]\<rparr>)"
        by (rule obs) simp_all
      ultimately show ?thesis
        unfolding customer_done_def proc_end_def
        by (auto intro!: until_ok_schedule until_ok_exit)
    qed
  next
    case (Request j)
    from d Request obtain a where a: "custs s ! j = AtRequest a"
      and s': "s' = customer_granted c rng j a ?s1"
      by (auto split: if_splits cust.splits)
    have ok: "until_ok h ((schedule (Timeout (Customer j)) pr dl s2)\<lparr>custs := cs\<rparr>)"
      if "env_queue s2 = q" "eid s2 = eid s" for pr dl s2 cs
    proof -
      have "until_ok h (schedule (Timeout (Customer j)) pr dl s2)"
        by (rule until_ok_schedule [OF obs [OF that]]) simp
      then show ?thesis
        using until_ok_cong [of "(schedule (Timeout (Customer j)) pr dl s2)\<lparr>custs := cs\<rparr>"
            "schedule (Timeout (Customer j)) pr dl s2"] by simp
    qed
    show ?thesis unfolding s' customer_granted_def Let_def timeout_def
      by (auto intro!: until_ok_customer_fail ok intro: obs)
  next
    case (Release k)
    then show ?thesis using d t1 by (auto intro: until_ok_trigger_put)
  next
    case (Process pd r)
    then show ?thesis using d t1 by (cases r) auto
  next
    case Until
    then show ?thesis using d by simp
  qed
qed

lemma until_ok_start:
  assumes "start c d = Inr s0"
  shows "until_ok (sim_time c) s0"
proof -
  have "eid s0 = 2" using assms
    by (auto simp: start_def Let_def schedule_def Environment_def split: if_splits)
  then show ?thesis
    using start_fields [OF assms] by (simp add: until_ok_def)
qed

lemma until_ok_reached:
  assumes "start c d = Inr s0" "run_loop c rng n s0 = Continue s"
  shows "until_ok (sim_time c) s"
  by (rule run_loop_invariant [where P = "until_ok (sim_time c)",
        OF until_ok_start [OF assms(1)] _ assms(2)])
     (rule step_until_ok)

text \<open>The head of the heap of a state of the run: it is the stop event, or lies before the horizon.\<close>

lemma head_before_horizon:
  assumes "time_ok s" "until_ok h s" "env_queue s = ((t, p, i), ev) # q"
  shows "ev = Until \<and> t = h \<and> (\<forall>x \<in> set q. h \<le> fst (fst x)) \<or> ev \<noteq> Until \<and> t < h"
proof -
  have le: "\<forall>x \<in> set q. (t, p, i) \<le> fst x"
    using assms(1,3) by (auto simp: time_ok_def)
  have hd: "((t, p, i), ev) = ((h, URGENT, 1), Until)
      \<or> (ev \<noteq> Until \<and> (t < h \<or> (h, URGENT, 1) < (t, p, i)))"
    using assms(2,3) by (auto simp: until_ok_def)
  show ?thesis
  proof (cases "ev = Until")
    case True
    with hd have k: "t = h" "p = 0" "i = 1" by auto
    have "h \<le> fst (fst x)" if "x \<in> set q" for x
    proof -
      obtain t' p' i' ev' where x: "x = ((t', p', i'), ev')" by (metis prod.exhaust)
      with le that have "(t, p, i) \<le> (t', p', i')" by fastforce
      then show ?thesis using x k by (auto split: if_splits)
    qed
    then show ?thesis using True k by simp
  next
    case False
    have "((h, URGENT, 1), Until) \<in> set q"
      using assms(2,3) False by (auto simp: until_ok_def)
    with le have "(t, p, i) \<le> (h, URGENT, 1)" by fastforce
    with hd False show ?thesis by auto
  qed
qed

lemma dispatch_now: "now (env_of (dispatch c rng ev s)) = now s"
  by (cases "(c, rng, ev, s)" rule: dispatch.cases)
     (auto simp: setup_start_def setup_resume_def process_customer_def proc_end_def
        customer_start_def customer_done_def customer_granted_def customer_fail_def
        env_request_def env_exit_request_def env_trigger_put_def grant_def Let_def timeout_def
        split: sum.splits prod.splits option.splits cust.splits)

lemma step_now:
  assumes "env_queue s = ((t, p, i), ev) # q"
  shows "now (env_of (step c rng s)) = t"
  using assms by (simp add: step_def dispatch_now)

lemma step_Stopped_iff:
  assumes "env_queue s = ((t, p, i), ev) # q"
  shows "(\<exists>s'. step c rng s = Stopped s') \<longleftrightarrow> ev = Until"
  using assms
  by (cases "(c, rng, ev, s\<lparr>now := t, env_queue := q\<rparr>)" rule: dispatch.cases)
     (auto simp: step_def split: cust.splits)

lemma step_Stopped_queue:
  assumes "env_queue s = ((t, p, i), ev) # q" "step c rng s = Stopped s'"
  shows "env_queue s' = q"
  using assms
  by (cases "(c, rng, ev, s\<lparr>now := t, env_queue := q\<rparr>)" rule: dispatch.cases)
     (auto simp: step_def split: cust.splits if_splits)

lemma run_scenario_started:
  assumes "0 < sim_time c"
  shows "\<exists>s0. start c d = Inr s0 \<and> run_scenario c rng d n = run_loop c rng n s0"
  using assms by (simp add: run_scenario_def start_def Let_def Environment_def)

lemma horizon_run_loop:
  assumes "start c d = Inr s0"
  shows "now (env_of (run_loop c rng n s0)) \<le> sim_time c
       \<and> (\<forall>s t p i ev q. run_loop c rng n s0 = Continue s \<and> env_queue s = ((t, p, i), ev) # q
            \<longrightarrow> t \<le> sim_time c)"
proof -
  have reached: "now s \<le> sim_time c \<and> (\<forall>t p i ev q. env_queue s = ((t, p, i), ev) # q \<longrightarrow> t \<le> sim_time c)"
    if "run_loop c rng m s0 = Continue s" for m s
  proof -
    have t: "time_ok s" and u: "until_ok (sim_time c) s"
      using time_ok_reached [OF assms that] until_ok_reached [OF assms that] by simp_all
    have "((sim_time c, URGENT, 1), Until) \<in> set (env_queue s)"
      using u by (simp add: until_ok_def)
    with t have "now s \<le> sim_time c" by (fastforce simp: time_ok_def)
    moreover have "t' \<le> sim_time c" if "env_queue s = ((t', p, i), ev) # q" for t' p i ev q
      using head_before_horizon [OF t u that] by auto
    ultimately show ?thesis by blast
  qed
  have ended: "now s \<le> sim_time c" if "run_loop c rng n s0 = out" "out = Stopped s \<or> out = Raised e s"
    for out s e
  proof -
    from run_loop_ended [OF that] obtain m s1
      where m: "run_loop c rng m s0 = Continue s1" "step c rng s1 = out" by blast
    show ?thesis
    proof (cases "env_queue s1")
      case Nil
      then have "s = s1" using m(2) that(2) by (auto simp: step_def)
      then show ?thesis using reached [OF m(1)] by simp
    next
      case (Cons x q)
      obtain t p i ev where x: "x = ((t, p, i), ev)" by (metis prod.exhaust)
      have "now (env_of out) = t" using step_now [of s1 t p i ev q c rng] Cons x m(2) by simp
      moreover have "t \<le> sim_time c" using reached [OF m(1)] Cons x by blast
      ultimately show ?thesis using that(2) by auto
    qed
  qed
  show ?thesis
  proof (cases "run_loop c rng n s0")
    case (Continue s)
    then show ?thesis using reached [OF Continue] by simp
  next
    case (Stopped s)
    then show ?thesis using ended [OF Stopped] by simp
  next
    case (Raised e s)
    then show ?thesis using ended [OF Raised] by simp
  qed
qed

lemma horizon_step:
  assumes "start c d = Inr s0" "run_loop c rng n s0 = Continue s"
  shows "(case step c rng s of
            Stopped s' \<Rightarrow> now s' = sim_time c \<and> list_all (\<lambda>x. sim_time c \<le> fst (fst x)) (env_queue s')
          | Continue s' \<Rightarrow> now s' < sim_time c
          | Raised e s' \<Rightarrow> now s' < sim_time c)"
proof -
  have t: "time_ok s" and u: "until_ok (sim_time c) s"
    using time_ok_reached [OF assms] until_ok_reached [OF assms] by simp_all
  have "((sim_time c, URGENT, 1), Until) \<in> set (env_queue s)"
    using u by (simp add: until_ok_def)
  then obtain x q where xq: "env_queue s = x # q" by (cases "env_queue s") auto
  obtain t' p i ev where x: "x = ((t', p, i), ev)" by (metis prod.exhaust)
  have q: "env_queue s = ((t', p, i), ev) # q" using xq x by simp
  note h = head_before_horizon [OF t u q]
  note nw = step_now [OF q, of c rng]
  show ?thesis
  proof (cases "step c rng s")
    case (Continue s')
    then have "ev \<noteq> Until" using step_Stopped_iff [OF q, of c rng] q
      by (auto simp: step_def)
    then show ?thesis using h nw Continue by simp
  next
    case (Stopped s')
    then have "ev = Until" using step_Stopped_iff [OF q, of c rng] by auto
    moreover have "env_queue s' = q" by (rule step_Stopped_queue [OF q Stopped])
    ultimately show ?thesis using h nw Stopped by (simp add: list_all_iff)
  next
    case (Raised e s')
    then have "ev \<noteq> Until" using q by (auto simp: step_def)
    then show ?thesis using h nw Raised by simp
  qed
qed

text \<open>
  Claim C4. In a run with horizon \<open>sim_time c\<close>, the clock never exceeds the horizon,
  neither after a dispatch nor in the state the run ends with, and the event about to
  be dispatched is never scheduled after the horizon.
\<close>

theorem horizon_respected:
  assumes "0 < sim_time c"
  shows "now (env_of (run_scenario c rng d n)) \<le> sim_time c
       \<and> (\<forall>s t p i ev q. run_scenario c rng d n = Continue s \<and> env_queue s = ((t, p, i), ev) # q
            \<longrightarrow> t \<le> sim_time c)"
proof -
  from run_scenario_started [OF assms] obtain s0
    where s0: "start c d = Inr s0" and eq: "run_scenario c rng d n = run_loop c rng n s0" by blast
  show ?thesis unfolding eq by (rule horizon_run_loop [OF s0])
qed

theorem horizon_respected_witness:
  "0 < sim_time cfg1
   \<and> run_scenario cfg1 unit_draws 0 21 = Stopped (env_of (run_scenario cfg1 unit_draws 0 21))
   \<and> now (env_of (run_scenario cfg1 unit_draws 0 21)) = 30
   \<and> now (env_of (run_scenario cfg1 unit_draws 0 21)) \<le> sim_time cfg1"
proof -
  have h: "0 < sim_time cfg1" by (simp add: cfg1_def)
  have "run_scenario cfg1 unit_draws 0 21 = Stopped (env_of (run_scenario cfg1 unit_draws 0 21))"
    "now (env_of (run_scenario cfg1 unit_draws 0 21)) = 30"
    by code_simp+
  then show ?thesis using h horizon_respected [OF h, of unit_draws 0 21] by simp
qed

text \<open>
  Claim C5 as stated fails: with the first arrival scheduled at time 5 and the horizon
  at 5, the run stops with the clock at 5 while that arrival is still pending; no
  customer has been created.
\<close>

theorem horizon_tie_left_pending:
  "run_scenario cfg5 unit_draws 0 2 = Stopped (env_of (run_scenario cfg5 unit_draws 0 2))
   \<and> sim_time cfg5 = 5
   \<and> env_queue (env_of (run_scenario cfg5 unit_draws 0 2)) = [((5, NORMAL, 2), Timeout Setup)]
   \<and> custs (env_of (run_scenario cfg5 unit_draws 0 2)) = []"
  by code_simp

text \<open>
  Claim C5, as amended. Every event the run dispatches before it stops lies strictly
  before the horizon; when the stop event is dispatched the clock is set to the horizon
  and every event still pending lies at or after the horizon, so an event scheduled at
  exactly the horizon is left undispatched.
\<close>

theorem horizon_stops_before_ties:
  assumes "0 < sim_time c" "run_scenario c rng d n = Continue s"
  shows "(case step c rng s of
            Stopped s' \<Rightarrow> now s' = sim_time c \<and> list_all (\<lambda>x. sim_time c \<le> fst (fst x)) (env_queue s')
          | Continue s' \<Rightarrow> now s' < sim_time c
          | Raised e s' \<Rightarrow> now s' < sim_time c)"
proof -
  from run_scenario_started [OF assms(1)] obtain s0
    where s0: "start c d = Inr s0" and eq: "run_scenario c rng d n = run_loop c rng n s0" by blast
  show ?thesis by (rule horizon_step [OF s0]) (use assms(2) eq in simp)
qed

theorem horizon_stops_before_ties_witness:
  "0 < sim_time cfg5
   \<and> run_scenario cfg5 unit_draws 0 1 = Continue (env_of (run_scenario cfg5 unit_draws 0 1))
   \<and> step cfg5 unit_draws (env_of (run_scenario cfg5 unit_draws 0 1))
       = Stopped (env_of (run_scenario cfg5 unit_draws 0 2))
   \<and> now (env_of (run_scenario cfg5 unit_draws 0 2)) = sim_time cfg5
   \<and> list_all (\<lambda>x. sim_time cfg5 \<le> fst (fst x)) (env_queue (env_of (run_scenario cfg5 unit_draws 0 2)))"
proof -
  have h: "0 < sim_time cfg5" by (simp add: cfg5_def)
  have r: "run_scenario cfg5 unit_draws 0 1 = Continue (env_of (run_scenario cfg5 unit_draws 0 1))"
    by code_simp
  have s: "step cfg5 unit_draws (env_of (run_scenario cfg5 unit_draws 0 1))
       = Stopped (env_of (run_scenario cfg5 unit_draws 0 2))"
    by code_simp
  show ?thesis using h r s horizon_stops_before_ties [OF h r] by simp
qed

subsection \<open>The observation lists\<close>

lemma counted_cong:
  assumes "custs s' = custs s" "queue_lengths s' = queue_lengths s" "wait_times s' = wait_times s"
  shows "counted s' = counted s"
  by (simp add: counted_def assms)

lemma env_exit_request_fields [simp]:
  "now (env_exit_request k s) = now s"
  "custs (env_exit_request k s) = custs s"
  "wait_times (env_exit_request k s) = wait_times s"
  "queue_lengths (env_exit_request k s) = queue_lengths s"
  "service_times (env_exit_request k s) = service_times s"
  "draws (env_exit_request k s) = draws s"
  by (simp_all add: env_exit_request_def)

lemma customer_fail_fields [simp]:
  "now (customer_fail k e s) = now s"
  "custs (customer_fail k e s) = (custs s)[k := Failed e]"
  "wait_times (customer_fail k e s) = wait_times s"
  "queue_lengths (customer_fail k e s) = queue_lengths s"
  "service_times (customer_fail k e s) = service_times s"
  "draws (customer_fail k e s) = draws s"
  by (simp_all add: customer_fail_def proc_end_def)

lemma customer_granted_fields:
  "now (customer_granted c rng j a s) = now s"
  "wait_times (customer_granted c rng j a s) = wait_times s @ [now s - a]"
  "queue_lengths (customer_granted c rng j a s) = queue_lengths s"
  "j < length (custs s) \<Longrightarrow> granted (custs (customer_granted c rng j a s) ! j)"
  "length (custs (customer_granted c rng j a s)) = length (custs s)"
  "k \<noteq> j \<Longrightarrow> custs (customer_granted c rng j a s) ! k = custs s ! k"
  by (auto simp: customer_granted_def Let_def timeout_def)

lemma customer_granted_custs:
  obtains v where "granted v" "custs (customer_granted c rng j a s) = (custs s)[j := v]"
proof (cases "service_mean c = 0")
  case True
  then have "custs (customer_granted c rng j a s) = (custs s)[j := Failed ZeroDivisionError]"
    by (simp add: customer_granted_def)
  then show ?thesis using that [of "Failed ZeroDivisionError"] by simp
next
  case False
  show ?thesis
  proof (cases "expovariate (1 / service_mean c) (rng (draws s)) < 0")
    case True
    with False have "custs (customer_granted c rng j a s) = (custs s)[j := Failed ValueError]"
      by (simp add: customer_granted_def Let_def timeout_def)
    then show ?thesis using that [of "Failed ValueError"] by simp
  next
    case neg: False
    with False have "custs (customer_granted c rng j a s) = (custs s)[j := AtTimeout]"
      by (simp add: customer_granted_def Let_def timeout_def)
    then show ?thesis using that [of AtTimeout] by simp
  qed
qed

lemma customer_start_fields:
  "now (customer_start j s) = now s"
  "wait_times (customer_start j s) = wait_times s"
  "service_times (customer_start j s) = service_times s"
  "queue_lengths (customer_start j s) = queue_lengths s @ [length (queue (agents s))]"
  "custs (customer_start j s) = (custs s)[j := AtRequest (now s)]"
  by (simp_all add: customer_start_def env_request_def grant_def split: prod.splits option.splits)

lemma customer_done_fields:
  "now (customer_done j s) = now s"
  "wait_times (customer_done j s) = wait_times s"
  "service_times (customer_done j s) = service_times s"
  "queue_lengths (customer_done j s) = queue_lengths s"
  "custs (customer_done j s) = (custs s)[j := Finished]"
  by (simp_all add: customer_done_def proc_end_def)

lemma setup_resume_fields:
  "now (setup_resume c rng s) = now s"
  "wait_times (setup_resume c rng s) = wait_times s"
  "service_times (setup_resume c rng s) = service_times s"
  "queue_lengths (setup_resume c rng s) = queue_lengths s"
  "custs (setup_resume c rng s) = custs s @ [Created]"
  by (simp_all add: setup_resume_def process_customer_def)

lemma setup_start_fields:
  "now (setup_start c rng s) = now s"
  "wait_times (setup_start c rng s) = wait_times s"
  "service_times (setup_start c rng s) = service_times s"
  "queue_lengths (setup_start c rng s) = queue_lengths s"
  "custs (setup_start c rng s) = custs s"
  by (simp_all add: setup_start_def proc_end_def split: sum.splits)

lemma step_counted:
  assumes "wf s" "counted s" "step c rng s = Continue s'"
  shows "counted s'"
proof (cases "env_queue s")
  case Nil
  then show ?thesis using assms(3) by (simp add: step_def)
next
  case (Cons x q)
  obtain t p i ev where x: "x = ((t, p, i), ev)" by (metis prod.exhaust)
  have d: "dispatch c rng ev (s\<lparr>now := t, env_queue := q\<rparr>) = Continue s'"
    using assms(3) Cons x by (simp add: step_def)
  have q: "env_queue s = ((t, p, i), ev) # q" using Cons x by simp
  let ?s1 = "s\<lparr>now := t, env_queue := q\<rparr>"
  have c1: "counted ?s1" using assms(2) by (simp add: counted_def)
  show ?thesis
  proof (cases ev)
    case (Initialize pd)
    show ?thesis
    proof (cases pd)
      case Setup
      then have "s' = setup_start c rng ?s1" using d Initialize by simp
      then show ?thesis using c1 by (simp add: counted_def setup_start_fields)
    next
      case (Customer j)
      have j: "j < length (custs s)" "custs s ! j = Created"
        using cust_ok_initialize [OF wf_D(3) [OF assms(1), of j]] q Initialize Customer by simp_all
      have "s' = customer_start j ?s1" using d Initialize Customer by simp
      then show ?thesis
        using assms(2) j length_filter_update [OF j(1), of arrived "AtRequest t"]
          length_filter_update [OF j(1), of granted "AtRequest t"]
        by (simp add: counted_def customer_start_fields)
    qed
  next
    case (Timeout pd)
    show ?thesis
    proof (cases pd)
      case Setup
      then have "s' = setup_resume c rng ?s1" using d Timeout by simp
      then show ?thesis using c1 by (simp add: counted_def setup_resume_fields)
    next
      case (Customer j)
      have j: "j < length (custs s)" "custs s ! j = AtTimeout"
        using cust_ok_timeout [OF wf_D(3) [OF assms(1), of j]] q Timeout Customer by simp_all
      have "s' = customer_done j ?s1" using d Timeout Customer by simp
      then show ?thesis
        using assms(2) j length_filter_update [OF j(1), of arrived Finished]
          length_filter_update [OF j(1), of granted Finished]
        by (simp add: counted_def customer_done_fields)
    qed
  next
    case (Request j)
    have j: "j < length (custs s)"
      using cust_ok_request [OF wf_D(3) [OF assms(1), of j]] q Request by simp_all
    from d Request obtain a where a: "custs s ! j = AtRequest a"
      and s': "s' = customer_granted c rng j a ?s1"
      by (auto split: if_splits cust.splits)
    obtain v where v: "granted v" "custs s' = (custs s)[j := v]"
      using customer_granted_custs [of c rng j a ?s1] s' by auto
    have "arrived v" using v(1) by (cases v) auto
    then show ?thesis
      using assms(2) j a v length_filter_update [OF j(1), of arrived v]
        length_filter_update [OF j(1), of granted v]
      by (simp add: counted_def s' customer_granted_fields)
  next
    case (Release k)
    then show ?thesis using d c1 by (auto simp: counted_def)
  next
    case (Process pd r)
    then show ?thesis using d c1 by (cases r) auto
  next
    case Until
    then show ?thesis using d by simp
  qed
qed

lemma counted_reached:
  assumes "start c d = Inr s0" "run_loop c rng n s0 = Continue s"
  shows "counted s"
proof -
  have "wf s \<and> counted s"
  proof (rule run_loop_invariant [where P = "\<lambda>s. wf s \<and> counted s", OF _ _ assms(2)])
    show "wf s0 \<and> counted s0"
      using wf_start [OF assms(1)] start_fields [OF assms(1)] by (simp add: counted_def)
  next
    fix s s' assume "wf s \<and> counted s" "step c rng s = Continue s'"
    then show "wf s' \<and> counted s'" using step_wf step_counted by blast
  qed
  then show ?thesis by simp
qed

text \<open>A service time is recorded right after each wait, unless line 34 divides by zero.\<close>

lemma step_service_times:
  assumes "service_mean c \<noteq> 0" "length (service_times s) = length (wait_times s)"
    "step c rng s = Continue s'"
  shows "length (service_times s') = length (wait_times s')"
proof (cases "env_queue s")
  case Nil
  then show ?thesis using assms(3) by (simp add: step_def)
next
  case (Cons x q)
  obtain t p i ev where x: "x = ((t, p, i), ev)" by (metis prod.exhaust)
  have d: "dispatch c rng ev (s\<lparr>now := t, env_queue := q\<rparr>) = Continue s'"
    using assms(3) Cons x by (simp add: step_def)
  show ?thesis
    using d assms(1,2)
    by (cases "(c, rng, ev, s\<lparr>now := t, env_queue := q\<rparr>)" rule: dispatch.cases)
       (auto simp: setup_start_fields setup_resume_fields customer_start_fields
          customer_done_fields customer_granted_def Let_def timeout_def
          split: if_splits cust.splits)
qed

lemma service_times_reached:
  assumes "service_mean c \<noteq> 0" "start c d = Inr s0" "run_loop c rng n s0 = Continue s"
  shows "length (service_times s) = length (wait_times s)"
  by (rule run_loop_invariant
        [where P = "\<lambda>s. length (service_times s) = length (wait_times s)", OF _ _ assms(3)])
     (use start_fields [OF assms(2)] step_service_times [OF assms(1)] in auto)

lemma filter_granted_le_arrived:
  "length (filter granted cs) \<le> length (filter arrived cs)"
proof (induction cs)
  case Nil
  then show ?case by simp
next
  case (Cons x cs)
  then show ?case by (cases x) auto
qed

lemma observations_run_loop:
  assumes "service_mean c \<noteq> 0" "start c d = Inr s0"
  shows "length (service_times (env_of (run_loop c rng n s0)))
           = length (wait_times (env_of (run_loop c rng n s0)))
       \<and> counted (env_of (run_loop c rng n s0))"
proof -
  have r: "length (service_times s) = length (wait_times s) \<and> counted s"
    if "run_loop c rng m s0 = Continue s" for m s
    using service_times_reached [OF assms that] counted_reached [OF assms(2) that] by simp
  have e: "length (service_times s) = length (wait_times s) \<and> counted s"
    if "run_loop c rng n s0 = out" "out = Stopped s \<or> out = Raised e s" for out s e
  proof -
    from run_loop_ended [OF that] obtain m s1
      where m: "run_loop c rng m s0 = Continue s1" "step c rng s1 = out" by blast
    have "service_times s = service_times s1" "wait_times s = wait_times s1"
      "queue_lengths s = queue_lengths s1" "custs s = custs s1"
      using step_ended [OF m(2) that(2)] by auto
    then show ?thesis using r [OF m(1)] by (simp add: counted_def)
  qed
  show ?thesis
  proof (cases "run_loop c rng n s0")
    case (Continue s)
    then show ?thesis using r [OF Continue] by simp
  next
    case (Stopped s)
    then show ?thesis using e [OF Stopped] by simp
  next
    case (Raised e' s)
    then show ?thesis using e [OF Raised] by simp
  qed
qed

text \<open>
  Claim C10. With a service mean other than zero, in every state of a run (after each
  dispatch and at its end) there are as many service times as waits, one wait per
  granted customer and one queue length per arrived customer; so there are at least
  as many queue lengths as waits, and a customer still waiting has a queue length
  but neither a wait nor a service time.
\<close>

theorem observation_lengths:
  assumes "service_mean c \<noteq> 0"
  shows "length (service_times (env_of (run_scenario c rng d n)))
           = length (wait_times (env_of (run_scenario c rng d n)))
       \<and> length (wait_times (env_of (run_scenario c rng d n)))
           = length (filter granted (custs (env_of (run_scenario c rng d n))))
       \<and> length (queue_lengths (env_of (run_scenario c rng d n)))
           = length (filter arrived (custs (env_of (run_scenario c rng d n))))
       \<and> length (wait_times (env_of (run_scenario c rng d n)))
           \<le> length (queue_lengths (env_of (run_scenario c rng d n)))"
proof (cases "start c d")
  case (Inl e)
  then show ?thesis by (simp add: run_scenario_def schedule_def Environment_def)
next
  case (Inr s0)
  then have eq: "run_scenario c rng d n = run_loop c rng n s0" by (simp add: run_scenario_def)
  show ?thesis
    using observations_run_loop [OF assms Inr, of rng n]
      filter_granted_le_arrived [of "custs (env_of (run_loop c rng n s0))"]
    by (simp add: eq counted_def)
qed

theorem observation_lengths_witness:
  "service_mean cfg1 \<noteq> 0
   \<and> custs (env_of (run_scenario cfg1 unit_draws 0 21))
       = [Finished, Finished, AtTimeout, AtRequest 20, AtRequest 25]
   \<and> length (service_times (env_of (run_scenario cfg1 unit_draws 0 21))) = 3
   \<and> length (wait_times (env_of (run_scenario cfg1 unit_draws 0 21))) = 3
   \<and> length (queue_lengths (env_of (run_scenario cfg1 unit_draws 0 21))) = 5"
proof -
  have h: "service_mean cfg1 \<noteq> 0" by (simp add: cfg1_def)
  have c: "custs (env_of (run_scenario cfg1 unit_draws 0 21))
       = [Finished, Finished, AtTimeout, AtRequest 20, AtRequest 25]"
    by code_simp
  show ?thesis using h c observation_lengths [OF h, of unit_draws 0 21] by simp
qed

subsection \<open>Waits\<close>

lemma step_wait_times:
  assumes "step c rng s = Continue s'" "env_queue s = ((t, p, i), ev) # q"
  shows "(\<forall>j. ev = Request j \<longrightarrow>
            (\<exists>a. j < length (custs s) \<and> custs s ! j = AtRequest a
                 \<and> wait_times s' = wait_times s @ [t - a])
            \<and> granted (custs s' ! j))
       \<and> (\<forall>j. ev = Initialize (Customer j) \<longrightarrow> custs s' = (custs s)[j := AtRequest t])
       \<and> ((\<forall>j. ev \<noteq> Request j) \<longrightarrow> wait_times s' = wait_times s)"
proof -
  have d: "dispatch c rng ev (s\<lparr>now := t, env_queue := q\<rparr>) = Continue s'"
    using assms by (simp add: step_def)
  show ?thesis
    using d
    by (cases "(c, rng, ev, s\<lparr>now := t, env_queue := q\<rparr>)" rule: dispatch.cases)
       (auto simp: setup_start_fields setup_resume_fields customer_start_fields
          customer_done_fields customer_granted_fields
          split: if_splits cust.splits)
qed

lemma step_waits_nonneg:
  assumes "time_ok s" "list_all (\<lambda>w. 0 \<le> w) (wait_times s)" "step c rng s = Continue s'"
  shows "list_all (\<lambda>w. 0 \<le> w) (wait_times s')"
proof (cases "env_queue s")
  case Nil
  then show ?thesis using assms(3) by (simp add: step_def)
next
  case (Cons x q)
  obtain t p i ev where x: "x = ((t, p, i), ev)" by (metis prod.exhaust)
  have q: "env_queue s = ((t, p, i), ev) # q" using Cons x by simp
  note w = step_wait_times [OF assms(3) q]
  show ?thesis
  proof (cases "\<exists>j. ev = Request j")
    case True
    then obtain j where j: "ev = Request j" by blast
    with w obtain a where a: "j < length (custs s)" "custs s ! j = AtRequest a"
      "wait_times s' = wait_times s @ [t - a]" by blast
    have "a \<le> now s" using assms(1) a(1,2) by (auto simp: time_ok_def)
    moreover have "now s \<le> t" by (rule time_ok_pop(2) [OF assms(1) q])
    ultimately show ?thesis using assms(2) a(3) by simp
  next
    case False
    then show ?thesis using w assms(2) by simp
  qed
qed

lemma waits_nonneg_reached:
  assumes "start c d = Inr s0" "run_loop c rng n s0 = Continue s"
  shows "time_ok s \<and> list_all (\<lambda>w. 0 \<le> w) (wait_times s)"
proof (rule run_loop_invariant
    [where P = "\<lambda>s. time_ok s \<and> list_all (\<lambda>w. 0 \<le> w) (wait_times s)", OF _ _ assms(2)])
  show "time_ok s0 \<and> list_all (\<lambda>w. 0 \<le> w) (wait_times s0)"
    using time_ok_start [OF assms(1)] start_fields [OF assms(1)] by simp
next
  fix s s' assume "time_ok s \<and> list_all (\<lambda>w. 0 \<le> w) (wait_times s)" "step c rng s = Continue s'"
  then show "time_ok s' \<and> list_all (\<lambda>w. 0 \<le> w) (wait_times s')"
    using step_time_ok step_waits_nonneg by blast
qed

lemma next_event_Some:
  "next_event s = Some ev \<longleftrightarrow> (\<exists>key q. env_queue s = (key, ev) # q)"
  by (cases "env_queue s") (auto simp: next_event_def)

text \<open>
  Claim C2. In a run, the dispatch that starts a customer stores the clock as its
  arrival time; the dispatch of its granted request appends to \<^verbatim>\<open>wait_times\<close>
  exactly one value, the clock minus that arrival time, which is not negative; no
  other dispatch changes \<^verbatim>\<open>wait_times\<close>. So the list holds one value per granted
  customer, and none is negative.
\<close>

theorem wait_recorded:
  assumes "run_scenario c rng d n = Continue s" "step c rng s = Continue s'"
  shows "(\<forall>j. next_event s = Some (Initialize (Customer j)) \<longrightarrow>
            custs s' ! j = AtRequest (now s') \<and> wait_times s' = wait_times s)
       \<and> (\<forall>j. next_event s = Some (Request j) \<longrightarrow>
            (\<exists>a. custs s ! j = AtRequest a \<and> a \<le> now s'
                 \<and> wait_times s' = wait_times s @ [now s' - a])
            \<and> granted (custs s' ! j))
       \<and> ((\<forall>j. next_event s \<noteq> Some (Request j)) \<longrightarrow> wait_times s' = wait_times s)
       \<and> length (wait_times s') = length (filter granted (custs s'))
       \<and> list_all (\<lambda>w. 0 \<le> w) (wait_times s')"
proof -
  obtain s0 where s0: "start c d = Inr s0" and r: "run_loop c rng n s0 = Continue s"
    using assms(1) by (cases "start c d") (auto simp: run_scenario_def)
  have r': "run_loop c rng (Suc n) s0 = Continue s'"
  proof -
    have "run_loop c rng (n + 1) s0 = Continue s'"
      using r assms(2)
    proof (induction n arbitrary: s0)
      case 0
      then show ?case by simp
    next
      case (Suc n)
      then show ?case by (cases "step c rng s0") auto
    qed
    then show ?thesis by simp
  qed
  have wfs: "wf s" by (rule wf_reached [OF s0 r])
  have ts: "time_ok s" using waits_nonneg_reached [OF s0 r] by simp
  have cnt: "counted s'" by (rule counted_reached [OF s0 r'])
  have nn: "list_all (\<lambda>w. 0 \<le> w) (wait_times s')" using waits_nonneg_reached [OF s0 r'] by simp
  obtain x q where xq: "env_queue s = x # q"
    using assms(2) by (cases "env_queue s") (auto simp: step_def)
  obtain t p i ev where x: "x = ((t, p, i), ev)" by (metis prod.exhaust)
  have q: "env_queue s = ((t, p, i), ev) # q" using xq x by simp
  have ne: "next_event s = Some ev" using q by (simp add: next_event_def)
  have nw: "now s' = t" using step_now [OF q, of c rng] assms(2) by simp
  note w = step_wait_times [OF assms(2) q]
  have 1: "custs s' ! j = AtRequest (now s') \<and> wait_times s' = wait_times s"
    if "ev = Initialize (Customer j)" for j
  proof -
    have "j < length (custs s)"
      using cust_ok_initialize [OF wf_D(3) [OF wfs, of j]] q that by simp
    then show ?thesis using w that nw by simp
  qed
  have 2: "(\<exists>a. custs s ! j = AtRequest a \<and> a \<le> now s'
                 \<and> wait_times s' = wait_times s @ [now s' - a]) \<and> granted (custs s' ! j)"
    if "ev = Request j" for j
  proof -
    from w that obtain a where a: "j < length (custs s)" "custs s ! j = AtRequest a"
      "wait_times s' = wait_times s @ [t - a]" and g: "granted (custs s' ! j)" by blast
    have "a \<le> now s" using ts a(1,2) by (auto simp: time_ok_def)
    moreover have "now s \<le> t" by (rule time_ok_pop(2) [OF ts q])
    ultimately show ?thesis using a g nw by auto
  qed
  have 3: "wait_times s' = wait_times s" if "\<forall>j. ev \<noteq> Request j"
    using w that by simp
  show ?thesis using 1 2 3 cnt nn by (simp add: ne counted_def)
qed

theorem wait_recorded_witness:
  "run_scenario cfg1 unit_draws 0 11 = Continue (env_of (run_scenario cfg1 unit_draws 0 11))
   \<and> step cfg1 unit_draws (env_of (run_scenario cfg1 unit_draws 0 11))
       = Continue (env_of (run_scenario cfg1 unit_draws 0 12))
   \<and> next_event (env_of (run_scenario cfg1 unit_draws 0 11)) = Some (Request 1)
   \<and> custs (env_of (run_scenario cfg1 unit_draws 0 11)) ! 1 = AtRequest 10
   \<and> now (env_of (run_scenario cfg1 unit_draws 0 12)) = 15
   \<and> wait_times (env_of (run_scenario cfg1 unit_draws 0 11)) = [0]
   \<and> wait_times (env_of (run_scenario cfg1 unit_draws 0 12)) = [0, 5]
   \<and> length (wait_times (env_of (run_scenario cfg1 unit_draws 0 12)))
       = length (filter granted (custs (env_of (run_scenario cfg1 unit_draws 0 12))))"
proof -
  have r: "run_scenario cfg1 unit_draws 0 11 = Continue (env_of (run_scenario cfg1 unit_draws 0 11))"
    by code_simp
  have s: "step cfg1 unit_draws (env_of (run_scenario cfg1 unit_draws 0 11))
       = Continue (env_of (run_scenario cfg1 unit_draws 0 12))"
    by code_simp
  have e: "next_event (env_of (run_scenario cfg1 unit_draws 0 11)) = Some (Request 1)"
    "custs (env_of (run_scenario cfg1 unit_draws 0 11)) ! 1 = AtRequest 10"
    "now (env_of (run_scenario cfg1 unit_draws 0 12)) = 15"
    "wait_times (env_of (run_scenario cfg1 unit_draws 0 11)) = [0]"
    "wait_times (env_of (run_scenario cfg1 unit_draws 0 12)) = [0, 5]"
    by code_simp+
  show ?thesis using r s e wait_recorded [OF r s] by simp
qed

subsection \<open>First come, first served\<close>







subsection \<open>Replay\<close>

lemma dispatch_draws:
  "draws s \<le> draws (env_of (dispatch c rng ev s))"
  by (cases "(c, rng, ev, s)" rule: dispatch.cases)
     (auto simp: setup_start_def setup_resume_def process_customer_def proc_end_def
        setup_wait_def customer_start_def customer_done_def customer_granted_def
        customer_fail_def env_request_def env_trigger_put_def Let_def timeout_def grant_def
        split: sum.splits prod.splits option.splits cust.splits)

lemma setup_wait_cong:
  assumes "rng (draws s) = rng' (draws s) \<or> draws (setup_wait c rng s) = draws s"
  shows "setup_wait c rng' s = setup_wait c rng s"
  using assms
  by (auto simp: setup_wait_def Let_def timeout_def proc_end_def split: if_splits)

lemma customer_granted_cong:
  assumes "rng (draws s) = rng' (draws s) \<or> draws (customer_granted c rng j a s) = draws s"
  shows "customer_granted c rng' j a s = customer_granted c rng j a s"
  using assms
  by (auto simp: customer_granted_def Let_def timeout_def split: if_splits)

lemma dispatch_cong:
  assumes "rng (draws s) = rng' (draws s) \<or> draws (env_of (dispatch c rng ev s)) = draws s"
  shows "dispatch c rng' ev s = dispatch c rng ev s"
proof (cases "(c, rng, ev, s)" rule: dispatch.cases)
  case (2 c0 rng0 s0)
  then show ?thesis using assms setup_wait_cong [of rng _ rng' c]
    by (auto simp: setup_start_def split: sum.splits)
next
  case (4 c0 rng0 s0)
  then show ?thesis using assms
      setup_wait_cong [of rng "process_customer (s\<lparr>setup_i := Suc (setup_i s)\<rparr>)" rng' c]
    by (auto simp: setup_resume_def process_customer_def)
next
  case (6 c0 rng0 k s0)
  then show ?thesis using assms customer_granted_cong [of rng s rng' c k]
    by (auto split: cust.splits)
qed auto

lemma step_draws: "draws s \<le> draws (env_of (step c rng s))"
  using dispatch_draws [of "s\<lparr>now := t, env_queue := q\<rparr>" c rng ev for t q ev]
  by (auto simp: step_def split: list.splits)

lemma step_cong:
  assumes "rng (draws s) = rng' (draws s) \<or> draws (env_of (step c rng s)) = draws s"
  shows "step c rng' s = step c rng s"
  using assms dispatch_cong [of rng "s\<lparr>now := t, env_queue := q\<rparr>" rng' c ev for t q ev]
  by (auto simp: step_def split: list.splits)

lemma run_loop_draws: "draws s \<le> draws (env_of (run_loop c rng n s))"
proof (induction n arbitrary: s)
  case 0
  then show ?case by simp
next
  case (Suc n)
  show ?case
  proof (cases "step c rng s")
    case (Continue s')
    then show ?thesis using Suc [of s'] step_draws [of s c rng] by simp
  next
    case (Stopped s')
    then show ?thesis using step_draws [of s c rng] by simp
  next
    case (Raised e s')
    then show ?thesis using step_draws [of s c rng] by simp
  qed
qed

lemma run_loop_cong:
  assumes "\<forall>i. draws s \<le> i \<and> i < draws (env_of (run_loop c rng n s)) \<longrightarrow> rng i = rng' i"
  shows "run_loop c rng' n s = run_loop c rng n s"
  using assms
proof (induction n arbitrary: s)
  case 0
  then show ?case by simp
next
  case (Suc n)
  have le: "draws (env_of (step c rng s)) \<le> draws (env_of (run_loop c rng (Suc n) s))"
    using run_loop_draws [of _ c rng n] by (cases "step c rng s") auto
  have "rng (draws s) = rng' (draws s) \<or> draws (env_of (step c rng s)) = draws s"
  proof (cases "draws (env_of (step c rng s)) = draws s")
    case True
    then show ?thesis by simp
  next
    case False
    then have "draws s < draws (env_of (step c rng s))"
      using step_draws [of s c rng] by simp
    then have "draws s < draws (env_of (run_loop c rng (Suc n) s))" using le by simp
    then show ?thesis using Suc.prems by simp
  qed
  then have st: "step c rng' s = step c rng s" by (rule step_cong)
  show ?case
  proof (cases "step c rng s")
    case (Continue s')
    have "run_loop c rng' n s' = run_loop c rng n s'"
    proof (rule Suc.IH, intro allI impI)
      fix i assume i: "draws s' \<le> i \<and> i < draws (env_of (run_loop c rng n s'))"
      then have "draws s \<le> i" using step_draws [of s c rng] Continue by simp
      then show "rng i = rng' i" using Suc.prems i Continue by simp
    qed
    then show ?thesis using st Continue by simp
  next
    case (Stopped s')
    then show ?thesis using st by simp
  next
    case (Raised e s')
    then show ?thesis using st by simp
  qed
qed

text \<open>
  Claim C6. A run is a function of the scenario, the horizon and the random stream
  from the position where the run starts; only the variates the run draws matter. Two
  runs whose streams agree on these variates end in the same state, with the same
  \<^verbatim>\<open>wait_times\<close>, \<^verbatim>\<open>queue_lengths\<close> and \<^verbatim>\<open>service_times\<close>.
\<close>

theorem deterministic_replay:
  assumes "\<forall>i. d \<le> i \<and> i < draws (env_of (run_scenario c rng d n)) \<longrightarrow> rng i = rng' i"
  shows "run_scenario c rng' d n = run_scenario c rng d n"
proof (cases "start c d")
  case (Inl e)
  then show ?thesis by (simp add: run_scenario_def)
next
  case (Inr s0)
  have "draws s0 = d" by (rule start_fields(9) [OF Inr])
  then have "run_loop c rng' n s0 = run_loop c rng n s0"
    using assms Inr by (intro run_loop_cong) (simp add: run_scenario_def)
  then show ?thesis using Inr by (simp add: run_scenario_def)
qed

theorem deterministic_replay_witness:
  "draws (env_of (run_scenario cfg1 unit_draws 0 21)) = 9
   \<and> map unit_draws [0..<9] = map late_draws [0..<9]
   \<and> late_draws 9 \<noteq> unit_draws 9
   \<and> run_scenario cfg1 late_draws 0 21 = run_scenario cfg1 unit_draws 0 21
   \<and> wait_times (env_of (run_scenario cfg1 late_draws 0 21)) = [0, 5, 10]"
proof -
  have d: "draws (env_of (run_scenario cfg1 unit_draws 0 21)) = 9" by code_simp
  have a: "\<forall>i. 0 \<le> i \<and> i < (9::nat) \<longrightarrow> unit_draws i = late_draws i"
    by (simp add: unit_draws_def late_draws_def)
  have m: "map unit_draws [0..<9] = map late_draws [0..<9]"
    using a by simp
  have n: "late_draws 9 \<noteq> unit_draws 9"
    by (simp add: unit_draws_def late_draws_def)
  have w: "wait_times (env_of (run_scenario cfg1 unit_draws 0 21)) = [0, 5, 10]" by code_simp
  have "run_scenario cfg1 late_draws 0 21 = run_scenario cfg1 unit_draws 0 21"
    by (rule deterministic_replay) (use d a in simp)
  then show ?thesis using d m n w by simp
qed

subsection \<open>Configurations that are not positive\<close>

text \<open>
  Claim C8 as stated fails: with a mean service time of 0 and the horizon at 5, where
  the first arrival is due, the run starts, stops normally at the horizon and its
  metrics are computed; with the horizon at 30 the run proceeds to time 5, records the
  first arrival and its wait, and only then raises \<^verbatim>\<open>ZeroDivisionError\<close>.
\<close>

theorem zero_service_mean_runs:
  "service_mean cfg_zero \<le> 0
   \<and> run_scenario cfg_zero unit_draws 0 2 = Stopped (env_of (run_scenario cfg_zero unit_draws 0 2))
   \<and> now (env_of (run_scenario cfg_zero unit_draws 0 2)) = 5
   \<and> results cfg_zero (env_of (run_scenario cfg_zero unit_draws 0 2))
       = Inr \<lparr>avg_wait = 0, max_queue = 0, agent_utilization = 0\<rparr>
   \<and> run_scenario (cfg_zero\<lparr>sim_time := 30\<rparr>) unit_draws 0 6
       = Raised ZeroDivisionError (env_of (run_scenario (cfg_zero\<lparr>sim_time := 30\<rparr>) unit_draws 0 6))
   \<and> now (env_of (run_scenario (cfg_zero\<lparr>sim_time := 30\<rparr>) unit_draws 0 6)) = 5
   \<and> queue_lengths (env_of (run_scenario (cfg_zero\<lparr>sim_time := 30\<rparr>) unit_draws 0 6)) = [0]
   \<and> wait_times (env_of (run_scenario (cfg_zero\<lparr>sim_time := 30\<rparr>) unit_draws 0 6)) = [0]"
  by code_simp

text \<open>
  Claim C8, as amended. Nothing is checked before the run. A number of agents that is
  not positive, a mean inter-arrival time of zero, or a negative one with a positive
  first variate, makes \<^verbatim>\<open>setup\<close> fail when it is first resumed: \<^verbatim>\<open>env.run\<close> raises
  \<^verbatim>\<open>ValueError\<close> or \<^verbatim>\<open>ZeroDivisionError\<close> at time 0, and no customer and no observation
  exists. (The mean service time is not checked there.)
\<close>

theorem setup_failure_at_start:
  assumes "num_agents c \<le> 0 \<or> inter_arrival_mean c = 0 \<or> (inter_arrival_mean c < 0 \<and> 0 < rng d)"
  shows "\<exists>e s. run_scenario c rng d (Suc (Suc n)) = Raised e s
           \<and> (e = ValueError \<or> e = ZeroDivisionError)
           \<and> now s = 0 \<and> custs s = []
           \<and> wait_times s = [] \<and> queue_lengths s = [] \<and> service_times s = []"
proof (cases "sim_time c \<le> 0")
  case True
  then show ?thesis
    by (simp add: run_scenario_def start_def Let_def schedule_def Environment_def)
next
  case False
  then have h: "0 < sim_time c" by simp
  let ?s0 = "schedule Until URGENT (sim_time c) (schedule (Initialize Setup) URGENT 0 (Environment d))"
  have st: "start c d = Inr ?s0"
    using h by (simp add: start_def Let_def schedule_def Environment_def)
  have q0: "env_queue ?s0 = [((0, 0, 0), Initialize Setup), ((sim_time c, 0, 1), Until)]"
    using h by (simp add: schedule_def Environment_def heappush_def)
  let ?s1 = "?s0\<lparr>now := 0, env_queue := [((sim_time c, 0, 1), Until)]\<rparr>"
  have s1: "step c rng ?s0 = Continue (setup_start c rng ?s1)"
    using q0 by (simp add: step_def)
  have neg: "expovariate (1 / inter_arrival_mean c) (rng d) < 0"
    if "inter_arrival_mean c < 0" "0 < rng d"
    using that by (simp add: expovariate_def mult_pos_neg)
  have "\<exists>e. (e = ValueError \<or> e = ZeroDivisionError)
        \<and> env_queue (setup_start c rng ?s1)
            = [((0, 1, 2), Process Setup (Some e)), ((sim_time c, 0, 1), Until)]
        \<and> custs (setup_start c rng ?s1) = [] \<and> wait_times (setup_start c rng ?s1) = []
        \<and> queue_lengths (setup_start c rng ?s1) = [] \<and> service_times (setup_start c rng ?s1) = []"
    using assms h neg
    by (auto simp: setup_start_def setup_wait_def Resource_def proc_end_def timeout_def Let_def
          schedule_def Environment_def heappush_def)
  then obtain e where e: "e = ValueError \<or> e = ZeroDivisionError"
    and q1: "env_queue (setup_start c rng ?s1)
            = [((0, 1, 2), Process Setup (Some e)), ((sim_time c, 0, 1), Until)]"
    and o: "custs (setup_start c rng ?s1) = []" "wait_times (setup_start c rng ?s1) = []"
      "queue_lengths (setup_start c rng ?s1) = []" "service_times (setup_start c rng ?s1) = []"
    by blast
  let ?s2 = "(setup_start c rng ?s1)\<lparr>now := 0, env_queue := [((sim_time c, 0, 1), Until)]\<rparr>"
  have s2: "step c rng (setup_start c rng ?s1) = Raised e ?s2"
    using q1 by (simp add: step_def)
  have "run_scenario c rng d (Suc (Suc n)) = Raised e ?s2"
    using st s1 s2 by (simp add: run_scenario_def)
  then show ?thesis using e o by simp
qed

theorem setup_failure_at_start_witness:
  "num_agents cfg_none \<le> 0
   \<and> run_scenario cfg_none unit_draws 0 (Suc (Suc 0))
       = Raised ValueError (env_of (run_scenario cfg_none unit_draws 0 (Suc (Suc 0))))
   \<and> now (env_of (run_scenario cfg_none unit_draws 0 (Suc (Suc 0)))) = 0"
proof -
  have h: "num_agents cfg_none \<le> 0" by (simp add: cfg_none_def)
  have r: "run_scenario cfg_none unit_draws 0 (Suc (Suc 0))
       = Raised ValueError (env_of (run_scenario cfg_none unit_draws 0 (Suc (Suc 0))))"
    by code_simp
  from setup_failure_at_start [of cfg_none unit_draws 0 0] h
  obtain e s where "run_scenario cfg_none unit_draws 0 (Suc (Suc 0)) = Raised e s" "now s = 0"
    by blast
  then show ?thesis using h r by simp
qed

subsection \<open>A negative sample\<close>

lemmas action_defs =
  setup_start_def setup_wait_def setup_resume_def process_customer_def proc_end_def
  customer_start_def customer_done_def customer_granted_def customer_fail_def
  env_request_def env_exit_request_def env_trigger_put_def grant_def Let_def timeout_def

lemma dispatch_queue_mono:
  "set (env_queue s) \<subseteq> set (env_queue (env_of (dispatch c rng ev s)))"
  by (cases "(c, rng, ev, s)" rule: dispatch.cases)
     (auto simp: action_defs split: sum.splits prod.splits option.splits cust.splits)

lemma dispatch_eid_mono:
  "eid s \<le> eid (env_of (dispatch c rng ev s))"
  by (cases "(c, rng, ev, s)" rule: dispatch.cases)
     (auto simp: action_defs split: sum.splits prod.splits option.splits cust.splits)

lemma sum_list_heappush [simp]:
  "sum_list (map g (heappush x q)) = (g x :: nat) + sum_list (map g q)"
  unfolding heappush_def by (induction q) auto

lemma backlog_schedule:
  assumes "now s = fst f" "fst (snd f) = NORMAL" "snd (snd f) < eid s" "0 \<le> dl"
  shows "backlog f (schedule ev pr dl s)
         = backlog f s + (if pr = URGENT \<and> dl = 0 then (if ev = Timeout Setup then 2 else 1) else 0)"
proof -
  obtain t p i where f: "f = (t, p, i)" by (metis prod.exhaust)
  show ?thesis using assms f by (auto simp: backlog_def ahead_def)
qed


lemma dispatch_backlog:
  assumes "now s = fst f" "fst (snd f) = NORMAL" "snd (snd f) < eid s"
  shows "backlog f (env_of (dispatch c rng ev s))
         \<le> backlog f s + (if ev = Timeout Setup then 1 else 0)"
proof -
  obtain t p i where f: "f = (t, p, i)" by (metis prod.exhaust)
  have a: "ahead f ((now s + dl, Suc 0, k), e) = 0" if "0 \<le> dl" "eid s \<le> k" for dl k e
    using that assms f by (auto simp: ahead_def)
  have b: "ahead f ((now s, 0, k), Initialize pd) = 1" for k pd
    using assms f by (auto simp: ahead_def)
  have c0: "ahead f ((now s, Suc 0, k), e) = 0" if "eid s \<le> k" for k e
    using a [of 0 k e] that by simp
  show ?thesis
    by (cases "(c, rng, ev, s)" rule: dispatch.cases)
       (auto simp: action_defs backlog_def schedule_def a b c0 not_less
          split: sum.splits prod.splits option.splits cust.splits)
qed

lemma run_loop_add:
  assumes "run_loop c rng n s0 = Continue s"
  shows "run_loop c rng (n + m) s0 = run_loop c rng m s"
  using assms
proof (induction n arbitrary: s0)
  case 0
  then show ?case by simp
next
  case (Suc n)
  then show ?case by (cases "step c rng s0") auto
qed

lemma doomed_step:
  assumes "doomed f (Process pd (Some e)) s" "until_ok h s" "fst f < h"
  shows "case step c rng s of
           Continue s1 \<Rightarrow> doomed f (Process pd (Some e)) s1 \<and> backlog f s1 < backlog f s
         | Stopped s1 \<Rightarrow> False
         | Raised e1 s1 \<Rightarrow> now s1 = fst f"
proof -
  let ?F = "(f, Process pd (Some e))"
  from assms(1) have F: "?F \<in> set (env_queue s)" and t: "time_ok s" and n: "now s = fst f"
    and pr: "fst (snd f) = NORMAL" and ei: "snd (snd f) < eid s"
    by (auto simp: doomed_def)
  obtain x q where xq: "env_queue s = x # q" using F by (cases "env_queue s") auto
  obtain t' p i ev where x: "x = ((t', p, i), ev)" by (metis prod.exhaust)
  have q: "env_queue s = ((t', p, i), ev) # q" using xq x by simp
  have le: "(t', p, i) \<le> f"
    using t F q by (auto simp: time_ok_def)
  have "now s \<le> t'" by (rule time_ok_pop(2) [OF t q])
  moreover have "t' \<le> fst f" using le by (cases f) (auto split: if_splits)
  ultimately have t': "t' = fst f" using n by simp
  let ?s1 = "s\<lparr>now := t', env_queue := q\<rparr>"
  have st: "step c rng s = dispatch c rng ev ?s1" using q by (simp add: step_def)
  have nw: "now (env_of (step c rng s)) = fst f" using step_now [OF q, of c rng] t' by simp
  have nu: "ev \<noteq> Until"
  proof
    assume "ev = Until"
    then have "((t', p, i), Until) \<in> set (env_queue s)" using q by simp
    then have "t' = h" using assms(2) by (auto simp: until_ok_def)
    then show False using t' assms(3) by simp
  qed
  have bl: "backlog f s = (if ev = Timeout Setup then 2 else 1) + backlog f ?s1"
    using q le by (simp add: backlog_def ahead_def)
  show ?thesis
  proof (cases "step c rng s")
    case (Continue s1)
    have d1: "dispatch c rng ev ?s1 = Continue s1" using st Continue by simp
    then have e1: "env_of (dispatch c rng ev ?s1) = s1" by simp
    have ne: "((t', p, i), ev) \<noteq> ?F" using d1 by auto
    then have "?F \<in> set q" using F q by auto
    then have "?F \<in> set (env_queue s1)"
      using dispatch_queue_mono [of ?s1 c rng ev] unfolding e1 by auto
    moreover have "time_ok s1" by (rule step_time_ok [OF t Continue])
    moreover have "now s1 = fst f" using nw Continue by simp
    moreover have "snd (snd f) < eid s1"
      using dispatch_eid_mono [of ?s1 c rng ev] ei unfolding e1 by simp
    moreover have "backlog f s1 \<le> backlog f ?s1 + (if ev = Timeout Setup then 1 else 0)"
      using dispatch_backlog [of ?s1 f c rng ev] t' pr ei unfolding e1 by simp
    then have "backlog f s1 < backlog f s" using bl by (simp split: if_splits)
    ultimately show ?thesis using Continue pr by (simp add: doomed_def)
  next
    case (Stopped s1)
    then have "ev = Until" using step_Stopped_iff [OF q, of c rng] by auto
    then show ?thesis using nu by simp
  next
    case (Raised e1 s1)
    then show ?thesis using nw by simp
  qed
qed

lemma doomed_raises:
  assumes "doomed f (Process pd (Some e)) s" "until_ok h s" "fst f < h"
  shows "\<exists>m e1 s1. run_loop c rng m s = Raised e1 s1 \<and> now s1 = fst f"
  using assms(1,2)
proof (induction "backlog f s" arbitrary: s rule: less_induct)
  case less
  note d = doomed_step [OF less.prems assms(3), of c rng]
  show ?case
  proof (cases "step c rng s")
    case (Continue s1)
    then have d1: "doomed f (Process pd (Some e)) s1" and b: "backlog f s1 < backlog f s"
      using d by simp_all
    have u1: "until_ok h s1" by (rule step_until_ok [OF less.prems(2) Continue])
    from less.hyps [OF b d1 u1] obtain m e1 s2
      where "run_loop c rng m s1 = Raised e1 s2" "now s2 = fst f" by blast
    then have "run_loop c rng (Suc m) s = Raised e1 s2 \<and> now s2 = fst f"
      using Continue by simp
    then show ?thesis by blast
  next
    case (Stopped s1)
    then show ?thesis using d by simp
  next
    case (Raised e1 s1)
    then have "run_loop c rng (Suc 0) s = Raised e1 s1 \<and> now s1 = fst f"
      using d by simp
    then show ?thesis by blast
  qed
qed

text \<open>
  Claim C9 as stated fails: with a mean service time of -10 the first sampled service
  time is -10, and it is appended to \<^verbatim>\<open>service_times\<close> before anything checks it; the
  run then raises \<^verbatim>\<open>ValueError\<close>.
\<close>

theorem negative_sample_recorded:
  "run_scenario cfg_neg unit_draws 0 4 = Continue (env_of (run_scenario cfg_neg unit_draws 0 4))
   \<and> service_times (env_of (run_scenario cfg_neg unit_draws 0 3)) = []
   \<and> service_times (env_of (run_scenario cfg_neg unit_draws 0 4)) = [- 10]
   \<and> run_scenario cfg_neg unit_draws 0 6
       = Raised ValueError (env_of (run_scenario cfg_neg unit_draws 0 6))
   \<and> service_times (env_of (run_scenario cfg_neg unit_draws 0 6)) = [- 10]"
  by code_simp

text \<open>
  Claim C9, as amended. When the service time sampled for a granted request is
  negative, it is first appended to \<^verbatim>\<open>service_times\<close>; \<^verbatim>\<open>env.timeout\<close> then refuses it
  with \<^verbatim>\<open>ValueError\<close>, so no timeout is scheduled and the request never holds for a
  negative time: its generator fails and its unit is released. The run then aborts:
  after finitely many further dispatches, all at the same simulated time, \<^verbatim>\<open>env.run\<close>
  raises the exception of a failed process.
\<close>

theorem negative_sample_aborts:
  assumes "run_scenario c rng d n = Continue s" "next_event s = Some (Request j)"
    and "service_mean c \<noteq> 0" "expovariate (1 / service_mean c) (rng (draws s)) < 0"
  shows "\<exists>s'. step c rng s = Continue s'
           \<and> service_times s' = service_times s @ [expovariate (1 / service_mean c) (rng (draws s))]
           \<and> custs s' ! j = Failed ValueError
           \<and> pending (Timeout (Customer j)) (env_queue s') = 0
           \<and> j \<notin> set (users (agents s'))
           \<and> (\<exists>m e s''. run_scenario c rng d (Suc n + m) = Raised e s'' \<and> now s'' = now s')"
proof -
  obtain s0 where s0: "start c d = Inr s0" and r: "run_loop c rng n s0 = Continue s"
    and rs: "\<And>k. run_scenario c rng d k = run_loop c rng k s0"
    using assms(1) by (cases "start c d") (auto simp: run_scenario_def)
  have wfs: "wf s" by (rule wf_reached [OF s0 r])
  obtain key q where q0: "env_queue s = (key, Request j) # q"
    using assms(2) by (auto simp: next_event_Some)
  obtain t p i where key: "key = (t, p, i)" by (metis prod.exhaust)
  have q: "env_queue s = ((t, p, i), Request j) # q" using q0 key by simp
  have j: "j < length (custs s)"
    using cust_ok_request [OF wf_D(3) [OF wfs, of j]] q by simp
  obtain a where a: "custs s ! j = AtRequest a"
    using cust_ok_request [OF wf_D(3) [OF wfs, of j]] q by auto
  let ?x = "expovariate (1 / service_mean c) (rng (draws s))"
  let ?s2 = "s\<lparr>now := t, env_queue := q, wait_times := wait_times s @ [t - a],
       draws := Suc (draws s), service_times := service_times s @ [?x]\<rparr>"
  define s' where "s' = customer_fail j ValueError ?s2"
  have st: "step c rng s = Continue s'"
    using q j a assms(3,4)
    by (simp add: step_def customer_granted_def Let_def timeout_def s'_def)
  have r': "run_loop c rng (Suc n) s0 = Continue s'"
    using run_loop_add [OF r, of "Suc 0"] st by simp
  have wf': "wf s'" by (rule wf_reached [OF s0 r'])
  have c': "custs s' ! j = Failed ValueError" "j < length (custs s')"
    using j by (simp_all add: s'_def)
  have ok: "pending (Timeout (Customer j)) (env_queue s') = 0" "j \<notin> set (users (agents s'))"
    using wf_D(3) [OF wf', of j] c' by (simp_all add: cust_ok_def Let_def)
  have sv: "service_times s' = service_times s @ [?x]" by (simp add: s'_def)
  let ?f = "(t, NORMAL, Suc (eid s))"
  have nw: "now s' = t" by (simp add: s'_def)
  have "doomed ?f (Process (Customer j) (Some ValueError)) s'"
    using time_ok_reached [OF s0 r'] nw
    by (simp add: doomed_def s'_def customer_fail_def proc_end_def env_exit_request_def)
  moreover have u: "until_ok (sim_time c) s'" by (rule until_ok_reached [OF s0 r'])
  moreover have "fst ?f < sim_time c"
    using horizon_step [OF s0 r] st nw by simp
  ultimately obtain m e s'' where m: "run_loop c rng m s' = Raised e s''" "now s'' = fst ?f"
    using doomed_raises [of ?f "Customer j" ValueError s' "sim_time c" c rng] by blast
  have "run_scenario c rng d (Suc n + m) = Raised e s'' \<and> now s'' = now s'"
    using run_loop_add [OF r', of m] m rs nw by simp
  then show ?thesis using st sv c'(1) ok by blast
qed

theorem negative_sample_aborts_witness:
  "run_scenario cfg_neg unit_draws 0 3 = Continue (env_of (run_scenario cfg_neg unit_draws 0 3))
   \<and> next_event (env_of (run_scenario cfg_neg unit_draws 0 3)) = Some (Request 0)
   \<and> service_mean cfg_neg \<noteq> 0
   \<and> expovariate (1 / service_mean cfg_neg)
        (unit_draws (draws (env_of (run_scenario cfg_neg unit_draws 0 3)))) = - 10
   \<and> (\<exists>s'. step cfg_neg unit_draws (env_of (run_scenario cfg_neg unit_draws 0 3)) = Continue s'
           \<and> service_times s' = [- 10] \<and> custs s' ! 0 = Failed ValueError)
   \<and> run_scenario cfg_neg unit_draws 0 (Suc 3 + 2)
       = Raised ValueError (env_of (run_scenario cfg_neg unit_draws 0 (Suc 3 + 2)))"
proof -
  let ?s = "env_of (run_scenario cfg_neg unit_draws 0 3)"
  have r: "run_scenario cfg_neg unit_draws 0 3 = Continue ?s" by code_simp
  have e: "next_event ?s = Some (Request 0)" by code_simp
  have h: "service_mean cfg_neg \<noteq> 0" by (simp add: cfg_neg_def)
  have x: "expovariate (1 / service_mean cfg_neg) (unit_draws (draws ?s)) = - 10"
    by (simp add: expovariate_def cfg_neg_def unit_draws_def)
  have sv: "service_times ?s = []" by code_simp
  have f: "run_scenario cfg_neg unit_draws 0 (Suc 3 + 2)
       = Raised ValueError (env_of (run_scenario cfg_neg unit_draws 0 (Suc 3 + 2)))"
    by code_simp
  from negative_sample_aborts [OF r e h] x obtain s'
    where "step cfg_neg unit_draws ?s = Continue s'"
      "service_times s' = service_times ?s
         @ [expovariate (1 / service_mean cfg_neg) (unit_draws (draws ?s))]"
      "custs s' ! 0 = Failed ValueError"
    by auto
  then have "\<exists>s'. step cfg_neg unit_draws ?s = Continue s'
           \<and> service_times s' = [- 10] \<and> custs s' ! 0 = Failed ValueError"
    using x sv by auto
  then show ?thesis using r e h x f by blast
qed

subsection \<open>The run and the pool\<close>

text \<open>
  In a run, \<^verbatim>\<open>step\<close> never finds the heap empty and a request event always finds its
  customer suspended at line 29: the run ends by the stop event or by the exception of
  a failed process.
\<close>

lemma run_raises_process_errors_only:
  assumes "start c d = Inr s0" "run_loop c rng n s0 = Continue s" "step c rng s = Raised e s'"
  shows "\<exists>key pd q. env_queue s = (key, Process pd (Some e)) # q"
proof -
  have wfs: "wf s" by (rule wf_reached [OF assms(1,2)])
  have "((sim_time c, URGENT, 1), Until) \<in> set (env_queue s)"
    using until_ok_reached [OF assms(1,2)] by (simp add: until_ok_def)
  then obtain x q where xq: "env_queue s = x # q" by (cases "env_queue s") auto
  obtain key ev where x: "x = (key, ev)" by (cases x)
  obtain t p i where key: "key = (t, p, i)" by (metis prod.exhaust)
  have d: "dispatch c rng ev (s\<lparr>now := t, env_queue := q\<rparr>) = Raised e s'"
    using assms(3) xq x key by (simp add: step_def)
  have "\<exists>pd. ev = Process pd (Some e)"
  proof (cases ev)
    case (Request j)
    have "j < length (custs s) \<and> (\<exists>a. custs s ! j = AtRequest a)"
      using cust_ok_request [OF wf_D(3) [OF wfs, of j]] xq x Request by simp
    then show ?thesis using d Request by auto
  next
    case (Process pd r)
    then show ?thesis using d by (cases r) auto
  next
    case (Initialize pd)
    then show ?thesis using d by (cases pd) auto
  next
    case (Timeout pd)
    then show ?thesis using d by (cases pd) auto
  qed (use d in auto)
  then show ?thesis using xq x by blast
qed

text \<open>
  Every dispatch after the first changes the pool by calls that \<open>pool_calls\<close> covers: an
  acquire by the arriving customer, an exit by a customer whose request had been
  granted, or the service of the queue; the other dispatches leave the pool alone.
\<close>

lemma step_pool_calls:
  assumes "wf s" "step c rng s = Continue s'" "next_event s \<noteq> Some (Initialize Setup)"
  shows "\<exists>cs. calls_ok cs (agents s) \<and> fst (pool_calls cs (agents s) []) = agents s'"
proof (cases "env_queue s")
  case Nil
  then show ?thesis using assms(2) by (simp add: step_def)
next
  case (Cons x q)
  obtain t p i ev where x: "x = ((t, p, i), ev)" by (metis prod.exhaust)
  have d: "dispatch c rng ev (s\<lparr>now := t, env_queue := q\<rparr>) = Continue s'"
    using assms(2) Cons x by (simp add: step_def)
  have q: "env_queue s = ((t, p, i), ev) # q" using Cons x by simp
  have none: ?thesis if "agents s' = agents s"
  proof -
    have "calls_ok [] (agents s) \<and> fst (pool_calls [] (agents s) []) = agents s'"
      using that by simp
    then show ?thesis by blast
  qed
  have exit: ?thesis if "agents s' = exit_request j (agents s)" "j \<notin> set (queue (agents s))" for j
  proof -
    have "calls_ok [Exit j] (agents s) \<and> fst (pool_calls [Exit j] (agents s) []) = agents s'"
      using that by simp
    then show ?thesis by blast
  qed
  show ?thesis
  proof (cases ev)
    case (Initialize pd)
    show ?thesis
    proof (cases pd)
      case Setup
      then show ?thesis using assms(3) q Initialize by (simp add: next_event_def)
    next
      case (Customer j)
      then have "agents s' = fst (request j (agents s))"
        using d Initialize
        by (auto simp: customer_start_def env_request_def grant_def split: prod.splits option.splits)
      then have "calls_ok [Acquire j] (agents s)
          \<and> fst (pool_calls [Acquire j] (agents s) []) = agents s'"
        by (simp split: prod.splits)
      then show ?thesis by blast
    qed
  next
    case (Timeout pd)
    show ?thesis
    proof (cases pd)
      case Setup
      then have "agents s' = agents s"
        using d Timeout by (auto simp: setup_resume_def process_customer_def)
      then show ?thesis by (rule none)
    next
      case (Customer j)
      have "j \<notin> set (queue (agents s))"
        using cust_ok_timeout [OF wf_D(3) [OF assms(1), of j]] q Timeout Customer by simp
      moreover have "agents s' = exit_request j (agents s)"
        using d Timeout Customer
        by (auto simp: customer_done_def proc_end_def env_exit_request_def)
      ultimately show ?thesis using exit by blast
    qed
  next
    case (Request j)
    have nq: "j \<notin> set (queue (agents s))"
      using cust_ok_request [OF wf_D(3) [OF assms(1), of j]] q Request by simp
    from d Request obtain a where s': "s' = customer_granted c rng j a (s\<lparr>now := t, env_queue := q\<rparr>)"
      by (auto split: if_splits cust.splits)
    have "agents s' = agents s \<or> agents s' = exit_request j (agents s)"
      unfolding s'
      by (auto simp: customer_granted_def customer_fail_def proc_end_def env_exit_request_def
            Let_def timeout_def)
    then show ?thesis using none exit nq by blast
  next
    case (Release k)
    then have "agents s' = fst (trigger_put (agents s))"
      using d by (auto simp: env_trigger_put_def grant_def split: prod.splits option.splits)
    then have "calls_ok [Serve] (agents s) \<and> fst (pool_calls [Serve] (agents s) []) = agents s'"
      by (simp split: prod.splits)
    then show ?thesis by blast
  next
    case (Process pd r)
    then have "agents s' = agents s" using d by (cases r) auto
    then show ?thesis by (rule none)
  next
    case Until
    then show ?thesis using d by simp
  qed
qed

text \<open>The three scenarios of the script are positive configurations.\<close>

lemma scenarios_positive:
  "list_all (\<lambda>(name, x). 0 < num_agents (scenario_config x) \<and> 0 < service_mean (scenario_config x)
       \<and> 0 < inter_arrival_mean (scenario_config x) \<and> 0 < sim_time (scenario_config x))
     SCENARIOS"
  by (simp add: SCENARIOS_def scenario_config_def SIM_TIME_def INTER_ARRIVAL_MEAN_def)

end
